theory Spec2Isabelle
  imports Complex_Main "HOL-Library.Log_Nat"
begin

section \<open>build\_coast: one-degree cell coastline packer\<close>

text \<open>
  The program is a single C function \<open>main\<close> working in two passes. Pass 1 reads
  shapes and appends vertex runs to per-cell staging files; pass 2 reads every staging file
  back and bit-packs each run into the output file. The development follows that order.

  Conventions of the embedding:
  \<^item> C \<open>double\<close> values are modelled as \<open>real\<close>. The result of every double addition and
  multiplication of pass 1 goes through \<open>rnd\<close>, the rounding of a real number to a double,
  which is a parameter of pass 1: a theorem assumes of it only what it states (that it is
  monotone, and exact at 0, 180 and 360, as every rounding mode of IEEE 754 is); an
  example takes \<open>id\<close> for it, at inputs whose sums and products are doubles. The half
  that \<open>NINT\<close> adds and the width formula of pass 2 are taken on exact reals.
  \<^item> \<open>int32_t\<close> values are modelled as \<open>int\<close>. A subtraction, negation or bit count of pass 2
  whose result leaves the 32-bit range has no defined behaviour in C; it is an \<open>Inl\<close>
  result of its own. Theorems on counters state the 32-bit range as a hypothesis.
  \<^item> Every \<open>exit (-1)\<close> of the source is an \<open>Inl\<close> result; a write through a stream
  pointer that is still \<open>NULL\<close> is an \<open>Inl\<close> result of its own.
  \<^item> Opening, reading, writing and allocating are assumed to succeed (the branches of the
  source that report a failed \<open>fopen\<close>, \<open>realloc\<close> or \<open>calloc\<close> are not modelled).
\<close>

subsection \<open>Numeric helpers\<close>

text \<open>The C conversion \<open>(int32_t) a\<close> of a double: truncation toward zero.\<close>

definition cast_int32 :: "real \<Rightarrow> int" where
  "cast_int32 a = (if a < 0 then \<lceil>a\<rceil> else \<lfloor>a\<rfloor>)"

text \<open>
  Modelled from the spec: \<open>NINT\<close>, a macro of \<open>nvutility.h\<close>, which is not part of the
  sources at hand. The spec calls it \<open>round\<close>, nearest-integer rounding; the usual macro
  text is \<open>(a) < 0.0 ? (int32_t) ((a) - 0.5) : (int32_t) ((a) + 0.5)\<close>.
\<close>

definition NINT :: "real \<Rightarrow> int" where
  "NINT a = (if a < 0 then cast_int32 (a - 1 / 2) else cast_int32 (a + 1 / 2))"

text \<open>
  The width computation of pass 2, \<open>NINT (log10 ((double) n) / log10 (2.0) + 1.0)\<close>.
  In C the logarithm of a non-positive number is not a number; in HOL \<open>log\<close> is total, so
  every use below is shown to have a positive argument.
\<close>

definition width_bits :: "int \<Rightarrow> int" where
  "width_bits n = NINT (log 10 (real_of_int n) / log 10 2 + 1)"

subsection \<open>Pass 1: normalisation of one vertex\<close>

text \<open>
  Lines 244-264: shift by 180/90 (two double additions, each rounded by \<open>rnd\<close>), the
  boundary rule for a shifted longitude of exactly 360, and truncation to the cell indices.
  The result is \<open>(lon[1], lat[1], londeg[1], latdeg[1])\<close>.
\<close>

definition normalize ::
  "(real \<Rightarrow> real) \<Rightarrow> real \<Rightarrow> real \<Rightarrow> real \<times> real \<times> int \<times> int" where
  "normalize rnd padfX padfY =
     (let lon1 = rnd (padfX + 180);
          lat1 = rnd (padfY + 90);
          lon1 = (if lon1 = 360 then 180 else lon1)
      in (lon1, lat1, cast_int32 lon1, cast_int32 lat1))"

subsection \<open>Bit packing\<close>

text \<open>
  A byte (\<open>uint8_t\<close>) is a natural number below 256. Bits are listed most significant
  first, so that bit position \<open>p\<close> of a buffer is bit \<open>7 - p mod 8\<close> of byte \<open>p div 8\<close>.
\<close>

type_synonym byte = nat

text \<open>The low \<open>n\<close> bits of an integer, most significant first (two's complement).\<close>

fun field_bits :: "nat \<Rightarrow> int \<Rightarrow> bool list" where
  "field_bits 0 v = []"
| "field_bits (Suc n) v = field_bits n (v div 2) @ [odd v]"

text \<open>The unsigned value of a bit string, most significant bit first.\<close>

definition bits_value :: "bool list \<Rightarrow> nat" where
  "bits_value bs = foldl (\<lambda>a b. 2 * a + (if b then 1 else 0)) 0 bs"

definition byte_bits :: "byte \<Rightarrow> bool list" where
  "byte_bits b = field_bits 8 (int b)"

definition buffer_bits :: "byte list \<Rightarrow> bool list" where
  "buffer_bits buffer = concat (map byte_bits buffer)"

text \<open>Whole bytes of a bit string; the first argument is the number of bytes.\<close>

fun bits_bytes :: "nat \<Rightarrow> bool list \<Rightarrow> byte list" where
  "bits_bytes 0 bs = []"
| "bits_bytes (Suc n) bs = bits_value (take 8 bs) # bits_bytes n (drop 8 bs)"

text \<open>
  Modelled from the spec: \<open>bit_pack\<close>, a function of the nvutility library, which is not
  part of the sources at hand. The spec's BitCodec packs an unsigned integer of a given bit
  width into a byte buffer at an arbitrary bit offset, most significant bit first within the
  field; the other bits of the buffer are kept. (A field that ends beyond the buffer would
  be a write out of bounds in C; here the bits beyond the buffer are dropped, and the layout
  theorem shows that pass 2 never gets there.)
\<close>

definition bit_pack :: "byte list \<Rightarrow> nat \<Rightarrow> nat \<Rightarrow> int \<Rightarrow> byte list" where
  "bit_pack buffer start numbits value =
     (let bs = buffer_bits buffer
      in bits_bytes (length buffer)
           (take start bs @ field_bits numbits value @ drop (start + numbits) bs))"

text \<open>
  Modelled from the spec: \<open>bit_unpack\<close>, the reading half of the spec's BitCodec (no
  decoder is part of the sources at hand): the unsigned value of \<open>numbits\<close> bits from bit
  offset \<open>start\<close>, most significant bit first.
\<close>

definition bit_unpack :: "byte list \<Rightarrow> nat \<Rightarrow> nat \<Rightarrow> int" where
  "bit_unpack buffer start numbits =
     int (bits_value (take numbits (drop start (buffer_bits buffer))))"

subsection \<open>Pass 2: one segment\<close>

type_synonym vertex = "int \<times> int"

text \<open>
  The exits of the program: a write through the staging stream while it is still \<open>NULL\<close>
  (pass 1), the two range errors of pass 2, which print the cell indices \<open>i\<close>, \<open>j\<close>
  and the bias, and an \<open>int32_t\<close> computation of pass 2 that leaves the 32-bit range
  (signed overflow: no defined behaviour in C).
\<close>

datatype fatal =
    NullStream
  | LonBiasOutOfRange int int int
  | LatBiasOutOfRange int int int
  | Int32Overflow

text \<open>The values of an \<open>int32_t\<close>.\<close>

definition int32 :: "int \<Rightarrow> bool" where
  "int32 v = (- 2147483648 \<le> v \<and> v \<le> 2147483647)"

text \<open>\<open>max_bias = (int32_t) (pow (2.0, 17.0) - 1.0)\<close>\<close>

definition max_bias :: int where
  "max_bias = 131071"

text \<open>
  Modelled from the spec: \<open>MIN\<close> and \<open>MAX\<close>, macros of \<open>nvutility.h\<close>, which is not part
  of the sources at hand: the smaller and the larger of two values (the spec's \<open>minDx\<close>,
  \<open>maxDx\<close> over the differences), here \<open>min\<close> and \<open>max\<close>.

  Lines 560-588: the smallest and largest difference of neighbours along one axis, started
  from \<open>(99999999, -99999999)\<close>. The loop body runs for \<open>k \<ge> 1\<close> only.
\<close>

fun diff_minmax :: "int list \<Rightarrow> int \<times> int \<Rightarrow> int \<times> int" where
  "diff_minmax (a # b # rest) (lo, hi) =
     diff_minmax (b # rest) (min (b - a) lo, max (b - a) hi)"
| "diff_minmax [a] d = d"
| "diff_minmax [] d = d"

text \<open>
  The differences \<open>segx[k] - segx[k - 1]\<close> that lines 583-586 compute, for
  \<open>k = 1, 2, ...\<close>; each is an \<open>int32_t\<close> subtraction.
\<close>

fun deltas :: "int list \<Rightarrow> int list" where
  "deltas (a # b # rest) = (b - a) # deltas (b # rest)"
| "deltas [a] = []"
| "deltas [] = []"

record seg_header =
  count_bits :: int
  lon_offset_bits :: int
  lat_offset_bits :: int
  bias_x :: int
  bias_y :: int
  range_x :: int
  range_y :: int
  size_bytes :: int

text \<open>
  Lines 560-626 for a segment of \<open>segCount = length seg > 0\<close> vertices read from the
  staging file of cell \<open>(i, j)\<close>: the biases with their range checks, the ranges, the three
  widths and the buffer size. The differences and the biases (lines 583-592), the ranges
  (lines 610-611) and the bit count (line 623) are \<open>int32_t\<close> computations; where one of
  them leaves the 32-bit range the result is \<open>Int32Overflow\<close>, at the place of the
  computation.
\<close>

definition segment_header :: "int \<Rightarrow> int \<Rightarrow> vertex list \<Rightarrow> fatal + seg_header" where
  "segment_header i j seg =
     (let segCount = int (length seg);
          diff_x = diff_minmax (map fst seg) (99999999, - 99999999);
          diff_y = diff_minmax (map snd seg) (99999999, - 99999999);
          bias_x = - fst diff_x;
          bias_y = - fst diff_y
      in if list_all int32 (deltas (map fst seg)) \<and> list_all int32 (deltas (map snd seg))
            \<and> int32 bias_x \<and> int32 bias_y
         then
           if bias_x > max_bias \<or> bias_x < - max_bias then Inl (LonBiasOutOfRange i j bias_x)
           else if bias_y > max_bias \<or> bias_y < - max_bias
           then Inl (LatBiasOutOfRange i j bias_y)
           else
             let range_x = snd diff_x - fst diff_x;
                 range_y = snd diff_y - fst diff_y
             in if int32 range_x \<and> int32 range_y
                then
                  let range_x = (if range_x = 0 then 1 else range_x);
                      range_y = (if range_y = 0 then 1 else range_y);
                      count_bits = width_bits segCount;
                      lon_offset_bits = width_bits range_x;
                      lat_offset_bits = width_bits range_y;
                      size = 5 + 5 + 5 + count_bits + lon_offset_bits + lat_offset_bits + 18
                               + 18 + 26 + 25
                               + (segCount - 1) * (lon_offset_bits + lat_offset_bits)
                  in if int32 size
                     then
                       Inr \<lparr>count_bits = count_bits, lon_offset_bits = lon_offset_bits,
                            lat_offset_bits = lat_offset_bits, bias_x = bias_x,
                            bias_y = bias_y, range_x = range_x, range_y = range_y,
                            size_bytes = size div 8 + 1\<rparr>
                     else Inl Int32Overflow
                else Inl Int32Overflow
         else Inl Int32Overflow)"

text \<open>Lines 647-654: the biased offsets of every vertex after the first.\<close>

fun pack_offsets :: "seg_header \<Rightarrow> vertex list \<Rightarrow> byte list \<times> nat \<Rightarrow> byte list \<times> nat" where
  "pack_offsets h (a # b # rest) (buffer, pos) =
     (let xoff = (fst b - fst a) + bias_x h;
          yoff = (snd b - snd a) + bias_y h;
          buffer = bit_pack buffer pos (nat (lon_offset_bits h)) xoff;
          pos = pos + nat (lon_offset_bits h);
          buffer = bit_pack buffer pos (nat (lat_offset_bits h)) yoff;
          pos = pos + nat (lat_offset_bits h)
      in pack_offsets h (b # rest) (buffer, pos))"
| "pack_offsets h [a] bp = bp"
| "pack_offsets h [] bp = bp"

text \<open>
  Lines 628-654: the zeroed buffer (\<open>calloc\<close>) and the fields in the order of the source.
  The segment is not empty here (\<open>segx[0]\<close> is read).
\<close>

definition pack_segment :: "seg_header \<Rightarrow> vertex list \<Rightarrow> byte list" where
  "pack_segment h seg =
     (let segCount = int (length seg);
          buffer = replicate (nat (size_bytes h)) (0 :: byte);
          pos = 0;
          buffer = bit_pack buffer pos 5 (count_bits h); pos = pos + 5;
          buffer = bit_pack buffer pos 5 (lon_offset_bits h); pos = pos + 5;
          buffer = bit_pack buffer pos 5 (lat_offset_bits h); pos = pos + 5;
          buffer = bit_pack buffer pos (nat (count_bits h)) segCount;
          pos = pos + nat (count_bits h);
          buffer = bit_pack buffer pos 18 (bias_x h + max_bias); pos = pos + 18;
          buffer = bit_pack buffer pos 18 (bias_y h + max_bias); pos = pos + 18;
          buffer = bit_pack buffer pos 26 (fst (hd seg)); pos = pos + 26;
          buffer = bit_pack buffer pos 25 (snd (hd seg)); pos = pos + 25
      in fst (pack_offsets h seg (buffer, pos)))"

definition encode_segment :: "int \<Rightarrow> int \<Rightarrow> vertex list \<Rightarrow> fatal + byte list" where
  "encode_segment i j seg =
     (case segment_header i j seg of
        Inl e \<Rightarrow> Inl e
      | Inr h \<Rightarrow> Inr (pack_segment h seg))"

subsection \<open>Pass 1: shapes to staging files\<close>

text \<open>
  The fields of shapelib's \<open>SHPObject\<close> that the program reads. Counts are never negative
  and are natural numbers here; an array is a list, read by index as in the source.
\<close>

record SHPObject =
  nVertices :: nat
  nParts :: nat
  panPartStart :: "int list"
  padfX :: "real list"
  padfY :: "real list"

text \<open>
  A staging file \<open>cell_LON_LAT\<close> is named by the pair \<open>(londeg, latdeg)\<close>; its content is
  the list of records appended so far, a record being the vertices of one segment (the
  count that precedes them in the file is their number). \<open>None\<close> is a file that does not
  exist.
\<close>

type_synonym cell = "int \<times> int"

type_synonym staging = "cell \<Rightarrow> vertex list list option"

text \<open>
  The variables of pass 1: the stream \<open>fp\<close> (\<open>None\<close> is \<open>NULL\<close>), the segment under
  construction (\<open>segx\<close>, \<open>segy\<close> up to \<open>segCount\<close>), the previous point and its cell, and
  the counter \<open>total\<close>.
\<close>

record ingest =
  cells :: staging
  fp :: "cell option"
  seg :: "vertex list"
  londeg0 :: int
  latdeg0 :: int
  lon0 :: real
  lat0 :: real
  total :: int

text \<open>Lines 171-178: the staging files of the 180 x 360 cells are removed.\<close>

definition remove_cells :: "staging \<Rightarrow> staging" where
  "remove_cells fs =
     (\<lambda>(j, i). if 0 \<le> i \<and> i < 180 \<and> 0 \<le> j \<and> j < 360 then None else fs (j, i))"

text \<open>\<open>fopen (fname, "ab")\<close>: the file is created when it does not exist.\<close>

definition open_cell :: "cell \<Rightarrow> ingest \<Rightarrow> ingest" where
  "open_cell c s =
     s\<lparr>fp := Some c,
       cells := (cells s)(c \<mapsto> (case cells s c of None \<Rightarrow> [] | Some rs \<Rightarrow> rs))\<rparr>"

text \<open>
  The \<open>fwrite\<close> calls that append one record (count, then the vertices) to the stream
  \<open>fp\<close>. The source does not test \<open>fp\<close>; through \<open>NULL\<close> the write has no defined
  behaviour, which is the result \<open>NullStream\<close>.
\<close>

definition write_record :: "vertex list \<Rightarrow> ingest \<Rightarrow> fatal + ingest" where
  "write_record r s =
     (case fp s of
        None \<Rightarrow> Inl NullStream
      | Some c \<Rightarrow>
          Inr (s\<lparr>cells := (cells s)(c \<mapsto> (case cells s c of None \<Rightarrow> [] | Some rs \<Rightarrow> rs) @ [r])\<rparr>))"

text \<open>
  Lines 244-417: one vertex, with \<open>start_segment\<close> already computed. A stored coordinate is
  \<open>NINT (lon * 100000.0)\<close>, the product being a double multiplication.
\<close>

definition vertex_step ::
  "(real \<Rightarrow> real) \<Rightarrow> bool \<Rightarrow> real \<Rightarrow> real \<Rightarrow> ingest \<Rightarrow> fatal + ingest" where
  "vertex_step rnd start_segment x y s =
     (case normalize rnd x y of (lon1, lat1, londeg1, latdeg1) \<Rightarrow>
        (case
           (if latdeg0 s > - 999 \<and> (latdeg1 \<noteq> latdeg0 s \<or> londeg1 \<noteq> londeg0 s) then
              (if start_segment then
                 (case write_record (seg s) s of
                    Inl e \<Rightarrow> Inl e
                  | Inr s \<Rightarrow> Inr ((open_cell (londeg1, latdeg1) s)\<lparr>seg := []\<rparr>))
               else
                 (let lastv = (NINT (rnd (lon0 s * 100000)), NINT (rnd (lat0 s * 100000)))
                  in case write_record (seg s @ [lastv]) s of
                       Inl e \<Rightarrow> Inl e
                     | Inr s \<Rightarrow> Inr ((open_cell (londeg1, latdeg1) s)\<lparr>seg := [lastv]\<rparr>)))
            else
              (if start_segment then
                 (if latdeg0 s = - 999 then Inr (open_cell (londeg1, latdeg1) s)
                  else
                    (case write_record (seg s) s of
                       Inl e \<Rightarrow> Inl e
                     | Inr s \<Rightarrow> Inr (s\<lparr>seg := []\<rparr>)))
               else Inr s))
         of
           Inl e \<Rightarrow> Inl e
         | Inr s \<Rightarrow>
             Inr (s\<lparr>seg := seg s @ [(NINT (rnd (lon1 * 100000)), NINT (rnd (lat1 * 100000)))],
                    londeg0 := londeg1, latdeg0 := latdeg1, lon0 := lon1, lat0 := lat1\<rparr>)))"

text \<open>
  Lines 223-239 and 418: the loop over the vertices \<open>j\<close> of one shape, with the ring
  counter \<open>numParts\<close>.
\<close>

fun shape_vertices ::
  "(real \<Rightarrow> real) \<Rightarrow> SHPObject \<Rightarrow> nat list \<Rightarrow> nat \<Rightarrow> ingest \<Rightarrow> fatal + ingest" where
  "shape_vertices rnd shape [] numParts s = Inr s"
| "shape_vertices rnd shape (j # js) numParts s =
     (let first = (j = 0 \<and> nParts shape > 0);
          ring = (numParts < nParts shape \<and> panPartStart shape ! numParts = int j);
          start_segment = (first \<or> ring);
          numParts = (if ring then numParts + 1 else numParts)
      in case vertex_step rnd start_segment (padfX shape ! j) (padfY shape ! j) s of
           Inl e \<Rightarrow> Inl e
         | Inr s \<Rightarrow> shape_vertices rnd shape js numParts s)"

text \<open>Lines 214-222: one shape; shapes of fewer than two vertices are only counted.\<close>

definition read_shape :: "(real \<Rightarrow> real) \<Rightarrow> SHPObject \<Rightarrow> ingest \<Rightarrow> fatal + ingest" where
  "read_shape rnd shape s =
     (let s = s\<lparr>total := total s + int (nVertices shape)\<rparr>
      in if nVertices shape \<ge> 2 then shape_vertices rnd shape [0..<nVertices shape] 1 s
         else Inr s)"

fun read_shapes :: "(real \<Rightarrow> real) \<Rightarrow> SHPObject list \<Rightarrow> ingest \<Rightarrow> fatal + ingest" where
  "read_shapes rnd [] s = Inr s"
| "read_shapes rnd (shape # rest) s =
     (case read_shape rnd shape s of Inl e \<Rightarrow> Inl e | Inr s \<Rightarrow> read_shapes rnd rest s)"

text \<open>
  Lines 181-457: one input source, given by its shapes: \<open>segCount = 0\<close>, the shapes, the
  flush of the last segment (not guarded by any test of \<open>fp\<close>), and \<open>latdeg[0] = -888\<close>.
\<close>

definition read_source :: "(real \<Rightarrow> real) \<Rightarrow> SHPObject list \<Rightarrow> ingest \<Rightarrow> fatal + ingest" where
  "read_source rnd shapes s =
     (case read_shapes rnd shapes (s\<lparr>seg := []\<rparr>) of
        Inl e \<Rightarrow> Inl e
      | Inr s \<Rightarrow>
          (case write_record (seg s) s of
             Inl e \<Rightarrow> Inl e
           | Inr s \<Rightarrow> Inr (s\<lparr>latdeg0 := - 888\<rparr>)))"

fun read_sources ::
  "(real \<Rightarrow> real) \<Rightarrow> SHPObject list list \<Rightarrow> ingest \<Rightarrow> fatal + ingest" where
  "read_sources rnd [] s = Inr s"
| "read_sources rnd (shapes # rest) s =
     (case read_source rnd shapes s of Inl e \<Rightarrow> Inl e | Inr s \<Rightarrow> read_sources rnd rest s)"

definition ingest_init :: "staging \<Rightarrow> ingest" where
  "ingest_init fs =
     \<lparr>cells = remove_cells fs, fp = None, seg = [], londeg0 = - 999, latdeg0 = - 999,
      lon0 = - 999, lat0 = - 999, total = 0\<rparr>"

text \<open>
  Lines 155-459: pass 1 on the staging directory \<open>fs\<close> found at the start and the input
  sources in command-line order, up to the \<open>fclose (fp)\<close> that follows the last source.
\<close>

definition pass1 :: "(real \<Rightarrow> real) \<Rightarrow> staging \<Rightarrow> SHPObject list list \<Rightarrow> fatal + staging" where
  "pass1 rnd fs sources =
     (case read_sources rnd sources (ingest_init fs) of
        Inl e \<Rightarrow> Inl e
      | Inr s \<Rightarrow> (case fp s of None \<Rightarrow> Inl NullStream | Some c \<Rightarrow> Inr (cells s)))"

subsection \<open>Pass 2: staging files to the output file\<close>

text \<open>
  The output file is its list of bytes. \<open>fseek\<close> to a position followed by \<open>fwrite\<close>
  overwrites in place and extends the file at its end.
\<close>

definition fwrite_at :: "byte list \<Rightarrow> nat \<Rightarrow> byte list \<Rightarrow> byte list" where
  "fwrite_at file pos bytes =
     take pos file @ replicate (pos - length file) 0 @ bytes @ drop (pos + length bytes) file"

text \<open>\<open>FILE_VERSION\<close> of \<open>version.h\<close>, a line feed, and zeros up to 128 bytes.\<close>

definition version_block :: "byte list" where
  "version_block =
     (let v = map of_char ''PFM Software - Compressed Coastline file V1.0 - 07/10/06'' @ [10]
      in v @ replicate (128 - length v) 0)"

text \<open>\<open>offset = (i * 360 + j) * (3 * sizeof (int32_t)) + 128\<close>\<close>

definition head_offset :: "int \<Rightarrow> int \<Rightarrow> nat" where
  "head_offset i j = nat ((i * 360 + j) * 12 + 128)"

text \<open>
  Lines 508-511 and 674-677: the three 32-bit fields of one header entry. \<open>head_buf\<close> is
  not initialised in the source; the three fields cover it.
\<close>

definition pack_head :: "byte list \<Rightarrow> int \<Rightarrow> int \<Rightarrow> int \<Rightarrow> byte list" where
  "pack_head head_buf address num_segments num_vertices =
     (let head_buf = bit_pack head_buf 0 32 address;
          head_buf = bit_pack head_buf 32 32 num_segments;
          head_buf = bit_pack head_buf 64 32 num_vertices
      in head_buf)"

text \<open>The cells in the order of the two nested loops: \<open>i\<close> (latitude) outside.\<close>

definition cell_order :: "(int \<times> int) list" where
  "cell_order = concat (map (\<lambda>i. map (\<lambda>j. (int i, int j)) [0..<360]) [0..<180])"

text \<open>Lines 487-515: the version block and the zeroed header area.\<close>

definition init_header :: "byte list \<Rightarrow> byte list" where
  "init_header head_buf =
     fold (\<lambda>(i, j) ofp. fwrite_at ofp (head_offset i j) (pack_head head_buf 0 0 0))
       cell_order version_block"

record packer =
  files :: staging
  ofp :: "byte list"
  num_segments :: int
  num_vertices :: int
  packed :: int

text \<open>
  Lines 535-662: the records of one staging file. An exit leaves the output file as it is
  at that moment, which is kept in the result.
\<close>

fun encode_records :: "int \<Rightarrow> int \<Rightarrow> vertex list list \<Rightarrow> packer \<Rightarrow> (fatal \<times> packer) + packer" where
  "encode_records i j [] s = Inr s"
| "encode_records i j (r # rest) s =
     (if r = [] then encode_records i j rest s
      else
        (let segCount = int (length r);
             s = s\<lparr>num_vertices := num_vertices s + segCount,
                   num_segments := num_segments s + 1,
                   packed := packed s + segCount\<rparr>
         in case encode_segment i j r of
              Inl e \<Rightarrow> Inl (e, s)
            | Inr buffer \<Rightarrow> encode_records i j rest (s\<lparr>ofp := ofp s @ buffer\<rparr>)))"

text \<open>Lines 525-682: one cell.\<close>

definition encode_cell :: "byte list \<Rightarrow> int \<Rightarrow> int \<Rightarrow> packer \<Rightarrow> (fatal \<times> packer) + packer" where
  "encode_cell head_buf i j s =
     (let s = s\<lparr>num_segments := 0, num_vertices := 0\<rparr>
      in case files s (j, i) of
           None \<Rightarrow> Inr s
         | Some recs \<Rightarrow>
             (let offset = head_offset i j;
                  address = int (length (ofp s))
              in case encode_records i j recs s of
                   Inl x \<Rightarrow> Inl x
                 | Inr s \<Rightarrow>
                     Inr (s\<lparr>files := (files s)((j, i) := None),
                            ofp := fwrite_at (ofp s) offset
                                     (pack_head head_buf address (num_segments s)
                                        (num_vertices s))\<rparr>)))"

fun encode_cells :: "byte list \<Rightarrow> (int \<times> int) list \<Rightarrow> packer \<Rightarrow> (fatal \<times> packer) + packer" where
  "encode_cells head_buf [] s = Inr s"
| "encode_cells head_buf ((i, j) # rest) s =
     (case encode_cell head_buf i j s of
        Inl x \<Rightarrow> Inl x
      | Inr s \<Rightarrow> encode_cells head_buf rest s)"

text \<open>Lines 465-695: pass 2 on the staging files that pass 1 left.\<close>

definition pass2 :: "byte list \<Rightarrow> staging \<Rightarrow> (fatal \<times> packer) + packer" where
  "pass2 head_buf fs =
     encode_cells head_buf cell_order
       \<lparr>files = fs, ofp = init_header head_buf, num_segments = 0, num_vertices = 0,
        packed = 0\<rparr>"

text \<open>
  The outcome of a run: the exit and the state of pass 2 at that moment (none when the
  exit is in pass 1, before the output file is opened), or the state of pass 2 at the end.
  The state holds the output file \<open>ofp\<close> and the counter \<open>packed\<close>, which is the variable
  \<open>total\<close> of the source after its reset at line 467. \<open>head_buf\<close> is the content of the
  uninitialised array of that name, and \<open>rnd\<close> the rounding of the double arithmetic of
  pass 1.
\<close>

datatype outcome = Exit fatal "packer option" | Finished packer

definition build_coast ::
  "(real \<Rightarrow> real) \<Rightarrow> byte list \<Rightarrow> staging \<Rightarrow> SHPObject list list \<Rightarrow> outcome" where
  "build_coast rnd head_buf fs sources =
     (case pass1 rnd fs sources of
        Inl e \<Rightarrow> Exit e None
      | Inr fs \<Rightarrow>
          (case pass2 head_buf fs of
             Inl (e, s) \<Rightarrow> Exit e (Some s)
           | Inr s \<Rightarrow> Finished s))"

fun final_state :: "outcome \<Rightarrow> packer option" where
  "final_state (Exit e s) = s"
| "final_state (Finished s) = Some s"

subsection \<open>Reading a block and a header entry back\<close>

text \<open>
  Modelled from the spec: the decoder of one block, which is not part of the sources at
  hand. It inverts the packing of pass 2: the same fields in the same order, with the
  widths that the block carries; a vertex after the first is its predecessor plus the
  stored offset minus the bias.
\<close>

fun unpack_offsets ::
  "byte list \<Rightarrow> nat \<Rightarrow> nat \<Rightarrow> int \<Rightarrow> int \<Rightarrow> nat \<Rightarrow> nat \<Rightarrow> vertex \<Rightarrow> vertex list" where
  "unpack_offsets buffer lon_bits lat_bits bsx bsy 0 pos prev = []"
| "unpack_offsets buffer lon_bits lat_bits bsx bsy (Suc n) pos prev =
     (let x = fst prev + bit_unpack buffer pos lon_bits - bsx;
          y = snd prev + bit_unpack buffer (pos + lon_bits) lat_bits - bsy
      in (x, y) # unpack_offsets buffer lon_bits lat_bits bsx bsy n (pos + lon_bits + lat_bits) (x, y))"

definition decode_segment :: "byte list \<Rightarrow> vertex list" where
  "decode_segment buffer =
     (let cb = nat (bit_unpack buffer 0 5);
          lon_bits = nat (bit_unpack buffer 5 5);
          lat_bits = nat (bit_unpack buffer 10 5);
          segCount = nat (bit_unpack buffer 15 cb);
          pos = 15 + cb;
          bsx = bit_unpack buffer pos 18 - max_bias;
          bsy = bit_unpack buffer (pos + 18) 18 - max_bias;
          x0 = bit_unpack buffer (pos + 36) 26;
          y0 = bit_unpack buffer (pos + 62) 25
      in if segCount = 0 then []
         else (x0, y0) # unpack_offsets buffer lon_bits lat_bits bsx bsy (segCount - 1) (pos + 87) (x0, y0))"

text \<open>
  The header entry of cell \<open>(i, j)\<close> of an output file: the three 32-bit fields at
  \<open>head_offset i j\<close>, read as address, number of segments, number of vertices.
\<close>

definition head_entry :: "byte list \<Rightarrow> int \<Rightarrow> int \<Rightarrow> int \<times> int \<times> int" where
  "head_entry file i j =
     (let e = take 12 (drop (head_offset i j) file)
      in (bit_unpack e 0 32, bit_unpack e 32 32, bit_unpack e 64 32))"

text \<open>
  Lines 591-592: \<open>bias_x = -diff_x[0]\<close> (and the same along y), as a function of the
  coordinates of the segment along the axis.
\<close>

definition axis_bias :: "int list \<Rightarrow> int" where
  "axis_bias xs = - fst (diff_minmax xs (99999999, - 99999999))"

text \<open>The exit, if any, and the output file of a result of pass 2.\<close>

fun result_exit :: "(fatal \<times> packer) + packer \<Rightarrow> fatal option" where
  "result_exit (Inl (e, s)) = Some e"
| "result_exit (Inr s) = None"

fun result_ofp :: "(fatal \<times> packer) + packer \<Rightarrow> byte list" where
  "result_ofp (Inl (e, s)) = ofp s"
| "result_ofp (Inr s) = ofp s"

subsection \<open>The quantities of the specification\<close>

text \<open>
  The specification's \<open>width(n) = round(log2(n)) + 1\<close>, with nearest-integer rounding, and
  its range of a list of differences: largest minus smallest, and 1 when that is 0. They are
  written from the words of the specification, to be compared with what pass 2 computes.
\<close>

definition spec_width :: "int \<Rightarrow> int" where
  "spec_width n = round (log 2 (real_of_int n)) + 1"

definition spec_range :: "int list \<Rightarrow> int" where
  "spec_range ds = (let r = Max (set ds) - Min (set ds) in if r = 0 then 1 else r)"

text \<open>
  The layout of a block in the words of the specification: the total number of bits, and
  the offset fields, one pair for each difference \<open>dx[k]\<close>, \<open>dy[k]\<close>, \<open>k \<ge> 1\<close>.
\<close>

definition spec_total_bits :: "seg_header \<Rightarrow> nat \<Rightarrow> nat" where
  "spec_total_bits h n =
     15 + nat (count_bits h) + nat (lon_offset_bits h) + nat (lat_offset_bits h) + 18 + 18
        + 26 + 25 + (n - 1) * (nat (lon_offset_bits h) + nat (lat_offset_bits h))"

definition spec_offset_fields :: "seg_header \<Rightarrow> vertex list \<Rightarrow> bool list" where
  "spec_offset_fields h vs =
     concat (map (\<lambda>(dx, dy). field_bits (nat (lon_offset_bits h)) (dx + bias_x h)
                              @ field_bits (nat (lat_offset_bits h)) (dy + bias_y h))
               (zip (deltas (map fst vs)) (deltas (map snd vs))))"

text \<open>
  The index of the output file in the words of the specification: entry number \<open>k\<close>
  (counted from 0, row-major: \<open>k\<close> is 360 times the latitude index plus the longitude
  index) is the 12 bytes at byte \<open>128 + 12 k\<close>, read as the three 32-bit fields address,
  segment count and vertex count. What a staging file contributes to its entry: the number
  of its records that have a vertex, and the number of their vertices.
\<close>

definition slot_entry :: "byte list \<Rightarrow> nat \<Rightarrow> int \<times> int \<times> int" where
  "slot_entry file k =
     (let e = take 12 (drop (128 + 12 * k) file)
      in (bit_unpack e 0 32, bit_unpack e 32 32, bit_unpack e 64 32))"

definition file_segments :: "vertex list list \<Rightarrow> int" where
  "file_segments recs = int (length (filter (\<lambda>r. r \<noteq> []) recs))"

definition file_vertices :: "vertex list list \<Rightarrow> int" where
  "file_vertices recs = int (sum_list (map length recs))"

subsection \<open>Auxiliary: a sequence of fields\<close>

text \<open>
  A device of the proofs, not part of the program: writing a list of (width, value) fields
  one after the other, as the consecutive \<open>bit_pack\<close> calls of pass 2 do, and the fields
  that pass 2 writes for a segment, as such lists.
\<close>

fun pack_fields :: "(nat \<times> int) list \<Rightarrow> byte list \<times> nat \<Rightarrow> byte list \<times> nat" where
  "pack_fields [] bp = bp"
| "pack_fields ((n, v) # fs) (buffer, pos) = pack_fields fs (bit_pack buffer pos n v, pos + n)"

definition fields_bits :: "(nat \<times> int) list \<Rightarrow> bool list" where
  "fields_bits fs = concat (map (\<lambda>(n, v). field_bits n v) fs)"

definition fields_width :: "(nat \<times> int) list \<Rightarrow> nat" where
  "fields_width fs = sum_list (map fst fs)"

definition head_fields :: "seg_header \<Rightarrow> vertex list \<Rightarrow> (nat \<times> int) list" where
  "head_fields h vs =
     [(5, count_bits h), (5, lon_offset_bits h), (5, lat_offset_bits h),
      (nat (count_bits h), int (length vs)),
      (18, bias_x h + max_bias), (18, bias_y h + max_bias),
      (26, fst (hd vs)), (25, snd (hd vs))]"

fun offset_fields :: "seg_header \<Rightarrow> vertex list \<Rightarrow> (nat \<times> int) list" where
  "offset_fields h (a # b # rest) =
     (nat (lon_offset_bits h), (fst b - fst a) + bias_x h)
       # (nat (lat_offset_bits h), (snd b - snd a) + bias_y h)
       # offset_fields h (b # rest)"
| "offset_fields h [a] = []"
| "offset_fields h [] = []"

subsection \<open>Auxiliary: invariants\<close>

text \<open>
  Devices of the proofs. A cell is in range when pass 2 reads its staging file; a staging
  file is non-trivial when one of its records has a vertex.
\<close>

definition in_range :: "cell \<Rightarrow> bool" where
  "in_range c = (case c of (j, i) \<Rightarrow> 0 \<le> i \<and> i < 180 \<and> 0 \<le> j \<and> j < 360)"

definition nontrivial :: "vertex list list \<Rightarrow> bool" where
  "nontrivial rs = (\<exists>r \<in> set rs. r \<noteq> [])"

text \<open>Every staging file in range is non-trivial.\<close>

definition files_ok :: "staging \<Rightarrow> bool" where
  "files_ok fs = (\<forall>c rs. in_range c \<and> fs c = Some rs \<longrightarrow> nontrivial rs)"

text \<open>
  Inside a source: a staging file in range is non-trivial, or it is the open stream and the
  segment under construction has a vertex; and while the previous latitude index is at most
  -999, the stream is not one of a cell in range. The file of the open stream exists.
\<close>

definition pending_ok :: "staging \<Rightarrow> cell option \<Rightarrow> vertex list \<Rightarrow> bool" where
  "pending_ok fs f sg =
     (\<forall>c rs. in_range c \<and> fs c = Some rs \<longrightarrow> nontrivial rs \<or> (f = Some c \<and> sg \<noteq> []))"

definition ingest_inv :: "ingest \<Rightarrow> bool" where
  "ingest_inv s =
     (pending_ok (cells s) (fp s) (seg s)
      \<and> (\<forall>c. fp s = Some c \<longrightarrow> cells s c \<noteq> None)
      \<and> (latdeg0 s \<le> - 999 \<longrightarrow> (\<forall>c. fp s = Some c \<longrightarrow> \<not> in_range c)))"

text \<open>
  Pass 2, with respect to the staging files \<open>st\<close> that pass 1 left: the header area is in
  the output file, and for every cell in range, as long as its staging file is not
  consumed, its entry is zero; once the file is consumed (or when there was none), the
  entry holds an address after the header area and the counts of the file, as 32-bit
  fields.
\<close>

definition cell_tied :: "staging \<Rightarrow> packer \<Rightarrow> int \<Rightarrow> int \<Rightarrow> bool" where
  "cell_tied st s i j =
     (case files s (j, i) of
        Some recs \<Rightarrow> st (j, i) = Some recs \<and> head_entry (ofp s) i j = (0, 0, 0)
      | None \<Rightarrow>
          (case st (j, i) of
             None \<Rightarrow> head_entry (ofp s) i j = (0, 0, 0)
           | Some recs \<Rightarrow>
               file_vertices recs \<le> packed s
               \<and> (\<exists>a. 777728 \<le> a \<and> a \<le> int (length (ofp s))
                      \<and> head_entry (ofp s) i j
                          = (a mod 2 ^ 32, file_segments recs mod 2 ^ 32,
                             file_vertices recs mod 2 ^ 32))))"

definition tied :: "staging \<Rightarrow> packer \<Rightarrow> bool" where
  "tied st s =
     (777728 \<le> length (ofp s) \<and> 0 \<le> packed s
      \<and> (\<forall>i j. in_range (j, i) \<longrightarrow> cell_tied st s i j))"

section \<open>Properties\<close>

subsection \<open>The width computation\<close>

text \<open>
  On a positive argument the quotient of decimal logarithms is the binary logarithm, the
  argument of \<open>NINT\<close> is positive, and \<open>NINT\<close> adds one half and truncates.
\<close>

lemma width_bits_round: "0 < n \<Longrightarrow> width_bits n = round (log 2 (real_of_int n)) + 1"
proof -
  assume n: "0 < n"
  define x where "x = log 2 (real_of_int n)"
  have e: "log 10 (real_of_int n) / log 10 2 = x"
    by (simp add: log_def x_def)
  have x0: "0 \<le> x" using n by (simp add: x_def)
  have "\<lfloor>x + 1 + 1 / 2\<rfloor> = \<lfloor>(x + 1 / 2) + of_int 1\<rfloor>" by (simp add: algebra_simps)
  also have "\<dots> = \<lfloor>x + 1 / 2\<rfloor> + 1" using floor_add_int [of "x + 1 / 2" 1] by simp
  finally have "\<lfloor>x + 1 + 1 / 2\<rfloor> = round x + 1" by (simp add: round_def)
  with x0 show ?thesis
    unfolding width_bits_def NINT_def cast_int32_def e x_def[symmetric]
    by simp
qed

text \<open>
  The same width without logarithms: half of the bit length of the square, rounded up.
  It gives the code equation by which a width is evaluated on a numeral. (For \<open>n \<le> 0\<close> the
  equation follows HOL's total logarithm; pass 2 never computes such a width.)
\<close>

lemma width_bits_bitlen:
  assumes n: "0 < n"
  shows "width_bits n = (bitlen (n * n) + 2) div 2"
proof -
  define x where "x = log 2 (real_of_int n)"
  have nn: "0 < n * n" using n by simp
  have "log 2 (real_of_int (n * n)) = 2 * x"
    using n by (simp add: x_def log_mult)
  then have bl: "bitlen (n * n) = \<lfloor>2 * x\<rfloor> + 1"
    using nn by (simp add: bitlen_alt_def)
  have "round x = \<lfloor>(2 * x + 1) / real_of_int 2\<rfloor>"
    by (simp add: round_def add_divide_distrib)
  also have "\<dots> = \<lfloor>2 * x + 1\<rfloor> div 2"
    by (rule floor_divide_real_eq_div) simp
  also have "\<lfloor>2 * x + 1\<rfloor> = \<lfloor>2 * x\<rfloor> + 1"
    using floor_add_int [of "2 * x" 1] by simp
  finally have "round x + 1 = (\<lfloor>2 * x\<rfloor> + 1 + 2) div 2" by simp
  then show ?thesis
    using width_bits_round [OF n] by (simp add: x_def [symmetric] bl)
qed

lemma width_bits_code [code]:
  "width_bits n = (if n = 0 then 1 else (bitlen (n * n) + 2) div 2)"
proof (cases "0 < n")
  case True
  then show ?thesis by (simp add: width_bits_bitlen)
next
  case False
  have "width_bits n = width_bits (- n)"
    by (simp add: width_bits_def log_def ln_minus)
  then show ?thesis
    using False width_bits_bitlen [of "- n"]
    by (cases "n = 0") (simp_all add: width_bits_def NINT_def cast_int32_def log_def)
qed

text \<open>The width is never less than the number of bits of the value.\<close>

lemma width_bits_ge_bitlen:
  assumes n: "0 < n"
  shows "bitlen n \<le> width_bits n"
  using n floor_le_round [of "log 2 (real_of_int n)"]
  by (simp add: width_bits_round bitlen_alt_def)

lemma width_bits_pos: "0 < n \<Longrightarrow> 1 \<le> width_bits n"
  using width_bits_ge_bitlen [of n] bitlen_bounds [of n]
  by (smt (verit) bitlen_alt_def zero_le_floor zero_le_log_cancel_iff of_int_1_le_iff)

lemma width_bits_enough:
  assumes n: "0 < n"
  shows "n < 2 ^ nat (width_bits n)"
proof -
  have "n < 2 ^ nat (bitlen n)"
    using bitlen_bounds [OF n] by simp
  also have "\<dots> \<le> 2 ^ nat (width_bits n)"
    using width_bits_ge_bitlen [OF n] by (intro power_increasing) simp_all
  finally show ?thesis .
qed

lemma width_bits_mono:
  assumes "0 < m" "m \<le> n"
  shows "width_bits m \<le> width_bits n"
proof -
  have "log 2 (real_of_int m) \<le> log 2 (real_of_int n)"
    using assms by simp
  then have "round (log 2 (real_of_int m)) \<le> round (log 2 (real_of_int n))"
    by (rule round_mono)
  then show ?thesis
    using assms by (simp add: width_bits_round)
qed

subsection \<open>The header of a segment\<close>

lemma diff_minmax_deltas:
  "deltas xs \<noteq> [] \<Longrightarrow>
     diff_minmax xs (lo, hi) = (min lo (Min (set (deltas xs))), max hi (Max (set (deltas xs))))"
proof (induction xs "(lo, hi)" arbitrary: lo hi rule: diff_minmax.induct)
  case (1 a b rest lo hi)
  show ?case
  proof (cases "deltas (b # rest) = []")
    case True
    then have "rest = []" by (cases rest) simp_all
    then show ?thesis by (simp add: min.commute max.commute)
  next
    case False
    then show ?thesis
      using 1(1) [OF False] by (simp add: ac_simps)
  qed
qed simp_all

lemma diff_minmax_short: "deltas xs = [] \<Longrightarrow> diff_minmax xs d = d"
  by (induction xs d rule: diff_minmax.induct) simp_all

lemma deltas_Nil_iff: "deltas xs = [] \<longleftrightarrow> length xs \<le> 1"
  by (induction xs rule: deltas.induct) simp_all

lemma length_deltas: "length (deltas xs) = length xs - 1"
  by (induction xs rule: deltas.induct) simp_all

lemma segment_header_InrD:
  assumes "segment_header i j vs = Inr h"
  shows "bias_x h = - fst (diff_minmax (map fst vs) (99999999, - 99999999))"
    and "bias_y h = - fst (diff_minmax (map snd vs) (99999999, - 99999999))"
    and "\<bar>bias_x h\<bar> \<le> max_bias" and "\<bar>bias_y h\<bar> \<le> max_bias"
    and "range_x h = (let r = snd (diff_minmax (map fst vs) (99999999, - 99999999)) + bias_x h
                      in if r = 0 then 1 else r)"
    and "range_y h = (let r = snd (diff_minmax (map snd vs) (99999999, - 99999999)) + bias_y h
                      in if r = 0 then 1 else r)"
    and "count_bits h = width_bits (int (length vs))"
    and "lon_offset_bits h = width_bits (range_x h)"
    and "lat_offset_bits h = width_bits (range_y h)"
    and "size_bytes h = (15 + count_bits h + lon_offset_bits h + lat_offset_bits h + 87
                          + (int (length vs) - 1) * (lon_offset_bits h + lat_offset_bits h)) div 8 + 1"
    and "list_all int32 (deltas (map fst vs))" and "list_all int32 (deltas (map snd vs))"
    and "int32 (snd (diff_minmax (map fst vs) (99999999, - 99999999)) + bias_x h)"
    and "int32 (snd (diff_minmax (map snd vs) (99999999, - 99999999)) + bias_y h)"
    and "int32 (15 + count_bits h + lon_offset_bits h + lat_offset_bits h + 87
                  + (int (length vs) - 1) * (lon_offset_bits h + lat_offset_bits h))"
  using assms
  unfolding segment_header_def Let_def
  by (simp_all split: if_splits, auto)

lemma segment_header_long:
  assumes "segment_header i j vs = Inr h"
  shows "2 \<le> length vs"
proof (rule ccontr)
  assume "\<not> 2 \<le> length vs"
  then have "deltas (map fst vs) = []"
    by (simp add: deltas_Nil_iff)
  then have "bias_x h = - 99999999"
    using segment_header_InrD(1) [OF assms] by (simp add: diff_minmax_short)
  then show False
    using segment_header_InrD(3) [OF assms] by (simp add: max_bias_def)
qed

text \<open>
  C3. For every segment that pass 2 encodes, \<open>count_bits\<close> is the specification's
  \<open>round(log2(count)) + 1\<close>, and \<open>lon_offset_bits\<close> and \<open>lat_offset_bits\<close> are the same
  function of the range of the differences along the axis (largest minus smallest, 1 when
  that is 0). The rounding is to the nearest integer: each width minus one differs from the
  binary logarithm by at most one half.
\<close>

theorem width_formula:
  assumes "segment_header i j vs = Inr h"
  shows "count_bits h = spec_width (int (length vs))
       \<and> lon_offset_bits h = spec_width (spec_range (deltas (map fst vs)))
       \<and> lat_offset_bits h = spec_width (spec_range (deltas (map snd vs)))
       \<and> \<bar>real_of_int (count_bits h - 1) - log 2 (real (length vs))\<bar> \<le> 1 / 2
       \<and> \<bar>real_of_int (lon_offset_bits h - 1)
            - log 2 (real_of_int (spec_range (deltas (map fst vs))))\<bar> \<le> 1 / 2
       \<and> \<bar>real_of_int (lat_offset_bits h - 1)
            - log 2 (real_of_int (spec_range (deltas (map snd vs))))\<bar> \<le> 1 / 2"
proof -
  note H = segment_header_InrD [OF assms]
  have len: "2 \<le> length vs" by (rule segment_header_long [OF assms])
  have rng: "r = spec_range (deltas xs) \<and> 0 < r"
    if b: "b = - fst (diff_minmax xs (99999999, - 99999999))" and bb: "\<bar>b\<bar> \<le> max_bias"
      and r: "r = (let r = snd (diff_minmax xs (99999999, - 99999999)) + b
                   in if r = 0 then 1 else r)"
      and l: "2 \<le> length xs"
    for b r :: int and xs
  proof -
    have ne: "deltas xs \<noteq> []" using l by (simp add: deltas_Nil_iff)
    let ?lo = "Min (set (deltas xs))" and ?hi = "Max (set (deltas xs))"
    have lohi: "?lo \<le> ?hi" using ne by (simp add: Min_le_iff)
    have b': "b = - min 99999999 ?lo" using b by (simp add: diff_minmax_deltas [OF ne])
    then have lo: "b = - ?lo" using bb by (simp add: max_bias_def min_def split: if_splits)
    then have "- 99999999 \<le> ?hi" using bb lohi by (simp add: max_bias_def)
    then have "snd (diff_minmax xs (99999999, - 99999999)) = ?hi"
      by (simp add: diff_minmax_deltas [OF ne])
    then show ?thesis using r lo lohi by (auto simp: spec_range_def Let_def)
  qed
  have x: "range_x h = spec_range (deltas (map fst vs)) \<and> 0 < range_x h"
    using rng [of "bias_x h" "map fst vs" "range_x h"] H(1,3,5) len by simp
  have y: "range_y h = spec_range (deltas (map snd vs)) \<and> 0 < range_y h"
    using rng [of "bias_y h" "map snd vs" "range_y h"] H(2,4,6) len by simp
  have c: "0 < int (length vs)" using len by (cases vs) simp_all
  have w: "width_bits n = spec_width n
        \<and> \<bar>real_of_int (spec_width n - 1) - log 2 (real_of_int n)\<bar> \<le> 1 / 2" if "0 < n" for n
    using that of_int_round_abs_le [of "log 2 (real_of_int n)"]
    by (simp add: width_bits_round spec_width_def)
  show ?thesis
    using w [OF c] w [of "range_x h"] w [of "range_y h"] x y H(7-9) by simp
qed

text \<open>
  C3, at a segment of three vertices: the differences are 5, 15 along x and -10, 5 along y.
\<close>

theorem width_formula_witness:
  "segment_header 10 20 [(2050000, 1050000), (2050005, 1049990), (2050020, 1049995)]
     = Inr \<lparr>count_bits = 3, lon_offset_bits = 4, lat_offset_bits = 5, bias_x = - 5,
            bias_y = 10, range_x = 10, range_y = 15, size_bytes = 17\<rparr>
   \<and> (3::int) = spec_width 3
   \<and> (4::int) = spec_width (spec_range [5, 15])
   \<and> (5::int) = spec_width (spec_range [- 10, 5])"
proof -
  have h: "segment_header 10 20 [(2050000, 1050000), (2050005, 1049990), (2050020, 1049995)]
     = Inr \<lparr>count_bits = 3, lon_offset_bits = 4, lat_offset_bits = 5, bias_x = - 5,
            bias_y = 10, range_x = 10, range_y = 15, size_bytes = 17\<rparr>"
    by code_simp
  show ?thesis
    using width_formula [OF h] h by simp
qed

text \<open>
  C5, as stated, fails: a segment of one vertex is not encoded with range 1 and bias 0. The
  loop over the differences does not run, the minimum keeps its start value 99999999, the
  bias is -99999999, and the longitude bias check exits.
\<close>

theorem one_vertex_segment_counterexample:
  "encode_segment 10 20 [(2050000, 1050000)] = Inl (LonBiasOutOfRange 10 20 (- 99999999))"
  by (simp add: encode_segment_def segment_header_def max_bias_def int32_def Let_def)

text \<open>
  C5, amended. For every segment of one vertex, of any cell, pass 2 computes the bias
  -99999999 and exits with the longitude bias error; nothing is packed.
\<close>

theorem one_vertex_segment_exits:
  "segment_header i j [v] = Inl (LonBiasOutOfRange i j (- 99999999))
   \<and> encode_segment i j [v] = Inl (LonBiasOutOfRange i j (- 99999999))"
  by (simp add: encode_segment_def segment_header_def max_bias_def int32_def Let_def)

subsection \<open>Normalisation\<close>




subsection \<open>Bounds of the differences\<close>

lemma deltas_in_set:
  "d \<in> set (deltas xs) \<Longrightarrow> \<exists>a \<in> set xs. \<exists>b \<in> set xs. d = b - a"
  by (induction xs rule: deltas.induct) auto

lemma width_bits_le:
  assumes "0 < n" "n \<le> m" "width_bits m = w"
  shows "1 \<le> width_bits n \<and> width_bits n \<le> w"
  using assms width_bits_mono [of n m] width_bits_pos [of n] by simp

lemma range_bound:
  fixes xs :: "int list"
  assumes b: "\<bar>axis_bias xs\<bar> \<le> max_bias" and l: "2 \<le> length xs"
    and c: "\<forall>x \<in> set xs. 0 \<le> x \<and> x \<le> m"
  shows "snd (diff_minmax xs (99999999, - 99999999)) + axis_bias xs \<le> m + max_bias"
    and "0 \<le> snd (diff_minmax xs (99999999, - 99999999)) + axis_bias xs"
proof -
  have ne: "deltas xs \<noteq> []" using l by (simp add: deltas_Nil_iff)
  let ?lo = "Min (set (deltas xs))" and ?hi = "Max (set (deltas xs))"
  have lohi: "?lo \<le> ?hi" using ne by (simp add: Min_le_iff)
  have "?hi \<in> set (deltas xs)" using ne by (intro Max_in) simp_all
  then obtain a b where "a \<in> set xs" "b \<in> set xs" "?hi = b - a"
    using deltas_in_set [of ?hi xs] by blast
  moreover from this c have "0 \<le> a" "b \<le> m" by auto
  ultimately have hi: "?hi \<le> m" by linarith
  have "axis_bias xs = - min 99999999 ?lo"
    by (simp add: axis_bias_def diff_minmax_deltas [OF ne])
  then have lo: "axis_bias xs = - ?lo" using b by (simp add: max_bias_def min_def split: if_splits)
  then have "- 99999999 \<le> ?hi" using b lohi by (simp add: max_bias_def)
  then have s: "snd (diff_minmax xs (99999999, - 99999999)) = ?hi"
    by (simp add: diff_minmax_deltas [OF ne])
  show "snd (diff_minmax xs (99999999, - 99999999)) + axis_bias xs \<le> m + max_bias"
    using s hi b by simp
  show "0 \<le> snd (diff_minmax xs (99999999, - 99999999)) + axis_bias xs"
    using s lo lohi by simp
qed

subsection \<open>Pass 1\<close>

lemma read_shape_small:
  "nVertices shape < 2 \<Longrightarrow> read_shape rnd shape s = Inr (s\<lparr>total := total s + int (nVertices shape)\<rparr>)"
  by (simp add: read_shape_def)

lemma read_shapes_small:
  "\<forall>sh \<in> set shapes. nVertices sh < 2 \<Longrightarrow> \<exists>t. read_shapes rnd shapes s = Inr (s\<lparr>total := t\<rparr>)"
proof (induction shapes arbitrary: s)
  case Nil
  have "s = s\<lparr>total := total s\<rparr>" by simp
  then show ?case by (metis read_shapes.simps(1))
next
  case (Cons sh shapes)
  then obtain t where "read_shapes rnd shapes (s\<lparr>total := total s + int (nVertices sh)\<rparr>)
      = Inr (s\<lparr>total := total s + int (nVertices sh), total := t\<rparr>)"
    by (metis list.set_intros(2))
  then show ?case using Cons.prems by (auto simp: read_shape_small)
qed

text \<open>
  C10. A shape of fewer than two vertices leaves the stream as it is, so the stream is
  opened only while a shape of at least two vertices is read. When the first input source
  has no such shape, the flush at the end of the source, which no test of the stream guards,
  writes through the stream that was never opened: pass 1, and so the run, ends there. With
  no source at all the close after the sources meets the same stream.
\<close>

theorem null_stream_flush:
  assumes "\<forall>sh \<in> set shapes. nVertices sh < 2"
  shows "(\<forall>sh \<in> set shapes. \<forall>s. fp s = None \<longrightarrow> (\<exists>s'. read_shape rnd sh s = Inr s' \<and> fp s' = None))
       \<and> read_source rnd shapes (ingest_init fs) = Inl NullStream
       \<and> pass1 rnd fs (shapes # rest) = Inl NullStream
       \<and> build_coast rnd head_buf fs (shapes # rest) = Exit NullStream None
       \<and> pass1 rnd fs [] = Inl NullStream"
proof -
  obtain t where "read_shapes rnd shapes ((ingest_init fs)\<lparr>seg := []\<rparr>)
      = Inr ((ingest_init fs)\<lparr>seg := [], total := t\<rparr>)"
    using read_shapes_small [OF assms] by blast
  then have src: "read_source rnd shapes (ingest_init fs) = Inl NullStream"
    by (simp add: read_source_def write_record_def ingest_init_def)
  then have p1: "pass1 rnd fs (shapes # rest) = Inl NullStream"
    by (simp add: pass1_def)
  have "pass1 rnd fs [] = Inl NullStream"
    by (simp add: pass1_def ingest_init_def)
  moreover have "\<forall>sh \<in> set shapes. \<forall>s. fp s = None \<longrightarrow> (\<exists>s'. read_shape rnd sh s = Inr s' \<and> fp s' = None)"
    using assms by (simp add: read_shape_small)
  ultimately show ?thesis
    using src p1 by (simp add: build_coast_def)
qed

text \<open>C10, at a source that holds one shape of one vertex.\<close>

theorem null_stream_flush_witness:
  "nVertices \<lparr>nVertices = 1, nParts = 0, panPartStart = [], padfX = [10], padfY = [20]\<rparr> < 2
   \<and> pass1 id Map.empty
        [[\<lparr>nVertices = 1, nParts = 0, panPartStart = [], padfX = [10], padfY = [20]\<rparr>]]
      = Inl NullStream"
proof -
  have a: "\<forall>sh \<in> set [\<lparr>nVertices = 1, nParts = 0, panPartStart = [], padfX = [10], padfY = [20]\<rparr>].
      nVertices sh < 2" by simp
  show ?thesis
    using null_stream_flush [OF a, where rnd = id and fs = Map.empty and rest = "[]"] by simp
qed

text \<open>
  C4. First part: a vertex whose cell differs from the cell of the previous vertex, with
  \<open>start_segment\<close> false, while the stream is that of the previous cell. The previous point
  is appended to the segment, which is written to the file of the old cell; the stream
  becomes that of the new cell; the new segment is the previous point followed by the
  vertex. Second part: a shape of two points (one part) that fall in different cells gives
  two segments, the first point twice in the file of its cell, and the first point followed
  by the second in the file of the second point's cell.
\<close>

theorem cell_change_duplicates:
  "(latdeg0 s > - 999 \<and> normalize rnd x y = (lon1, lat1, londeg1, latdeg1)
      \<and> (latdeg1 \<noteq> latdeg0 s \<or> londeg1 \<noteq> londeg0 s)
      \<and> fp s = Some (londeg0 s, latdeg0 s) \<and> cells s (londeg0 s, latdeg0 s) = Some recs
    \<longrightarrow> (\<exists>s'. vertex_step rnd False x y s = Inr s'
           \<and> cells s' (londeg0 s, latdeg0 s)
               = Some (recs @ [seg s @ [(NINT (rnd (lon0 s * 100000)), NINT (rnd (lat0 s * 100000)))]])
           \<and> fp s' = Some (londeg1, latdeg1)
           \<and> cells s' (londeg1, latdeg1)
               = Some (case cells s (londeg1, latdeg1) of None \<Rightarrow> [] | Some rs \<Rightarrow> rs)
           \<and> seg s' = [(NINT (rnd (lon0 s * 100000)), NINT (rnd (lat0 s * 100000))),
                        (NINT (rnd (lon1 * 100000)), NINT (rnd (lat1 * 100000)))]))
   \<and> (normalize rnd px py = (lonp, latp, jp, ip) \<and> normalize rnd qx qy = (lonq, latq, jq, iq)
      \<and> (jp, ip) \<noteq> (jq, iq)
      \<and> 0 \<le> ip \<and> ip < 180 \<and> 0 \<le> jp \<and> jp < 360 \<and> 0 \<le> iq \<and> iq < 180 \<and> 0 \<le> jq \<and> jq < 360
    \<longrightarrow> (\<exists>st. pass1 rnd fs [[\<lparr>nVertices = 2, nParts = 1, panPartStart = [0],
                                padfX = [px, qx], padfY = [py, qy]\<rparr>]] = Inr st
           \<and> st (jp, ip) = Some [[(NINT (rnd (lonp * 100000)), NINT (rnd (latp * 100000))),
                                   (NINT (rnd (lonp * 100000)), NINT (rnd (latp * 100000)))]]
           \<and> st (jq, iq) = Some [[(NINT (rnd (lonp * 100000)), NINT (rnd (latp * 100000))),
                                   (NINT (rnd (lonq * 100000)), NINT (rnd (latq * 100000)))]]))"
proof (intro conjI impI)
  assume a: "latdeg0 s > - 999 \<and> normalize rnd x y = (lon1, lat1, londeg1, latdeg1)
      \<and> (latdeg1 \<noteq> latdeg0 s \<or> londeg1 \<noteq> londeg0 s)
      \<and> fp s = Some (londeg0 s, latdeg0 s) \<and> cells s (londeg0 s, latdeg0 s) = Some recs"
  then show "\<exists>s'. vertex_step rnd False x y s = Inr s'
           \<and> cells s' (londeg0 s, latdeg0 s)
               = Some (recs @ [seg s @ [(NINT (rnd (lon0 s * 100000)), NINT (rnd (lat0 s * 100000)))]])
           \<and> fp s' = Some (londeg1, latdeg1)
           \<and> cells s' (londeg1, latdeg1)
               = Some (case cells s (londeg1, latdeg1) of None \<Rightarrow> [] | Some rs \<Rightarrow> rs)
           \<and> seg s' = [(NINT (rnd (lon0 s * 100000)), NINT (rnd (lat0 s * 100000))),
                        (NINT (rnd (lon1 * 100000)), NINT (rnd (lat1 * 100000)))]"
    by (auto simp: vertex_step_def write_record_def open_cell_def Let_def)
next
  assume a: "normalize rnd px py = (lonp, latp, jp, ip) \<and> normalize rnd qx qy = (lonq, latq, jq, iq)
      \<and> (jp, ip) \<noteq> (jq, iq)
      \<and> 0 \<le> ip \<and> ip < 180 \<and> 0 \<le> jp \<and> jp < 360 \<and> 0 \<le> iq \<and> iq < 180 \<and> 0 \<le> jq \<and> jq < 360"
  have u: "[0..<2] = [0, 1]" by (simp add: upt_rec)
  show "\<exists>st. pass1 rnd fs [[\<lparr>nVertices = 2, nParts = 1, panPartStart = [0],
                                padfX = [px, qx], padfY = [py, qy]\<rparr>]] = Inr st
           \<and> st (jp, ip) = Some [[(NINT (rnd (lonp * 100000)), NINT (rnd (latp * 100000))),
                                   (NINT (rnd (lonp * 100000)), NINT (rnd (latp * 100000)))]]
           \<and> st (jq, iq) = Some [[(NINT (rnd (lonp * 100000)), NINT (rnd (latp * 100000))),
                                   (NINT (rnd (lonq * 100000)), NINT (rnd (latq * 100000)))]]"
    using a
    by (auto simp: pass1_def read_source_def read_shape_def u vertex_step_def write_record_def
        open_cell_def ingest_init_def remove_cells_def Let_def)
qed

text \<open>
  C4, at the two points (-169.5, -79.5) and (-168.5, -79.5), which fall in the cells of
  longitude index 10 and 11 and latitude index 10. The sums and products of these
  coordinates are doubles, and \<open>rnd\<close> is \<open>id\<close>.
\<close>

theorem cell_change_duplicates_witness:
  "normalize id (- 169.5) (- 79.5) = (10.5, 10.5, 10, 10)
   \<and> normalize id (- 168.5) (- 79.5) = (11.5, 10.5, 11, 10)
   \<and> ((10, 10) :: cell) \<noteq> (11, 10)
   \<and> (\<exists>st. pass1 id Map.empty [[\<lparr>nVertices = 2, nParts = 1, panPartStart = [0],
                                padfX = [- 169.5, - 168.5], padfY = [- 79.5, - 79.5]\<rparr>]] = Inr st
           \<and> st (10, 10) = Some [[(1050000, 1050000), (1050000, 1050000)]]
           \<and> st (11, 10) = Some [[(1050000, 1050000), (1150000, 1050000)]])"
proof -
  have p: "normalize id (- 169.5) (- 79.5) = (10.5, 10.5, 10, 10)"
    and q: "normalize id (- 168.5) (- 79.5) = (11.5, 10.5, 11, 10)"
    by (simp_all add: normalize_def cast_int32_def Let_def)
  have n: "NINT (10.5 * 100000) = 1050000" "NINT (11.5 * 100000) = 1150000"
    by (simp_all add: NINT_def cast_int32_def)
  have "\<exists>st. pass1 id Map.empty [[\<lparr>nVertices = 2, nParts = 1, panPartStart = [0],
                                padfX = [- 169.5, - 168.5], padfY = [- 79.5, - 79.5]\<rparr>]] = Inr st
           \<and> st (10, 10) = Some [[(NINT (10.5 * 100000), NINT (10.5 * 100000)),
                                   (NINT (10.5 * 100000), NINT (10.5 * 100000))]]
           \<and> st (11, 10) = Some [[(NINT (10.5 * 100000), NINT (10.5 * 100000)),
                                   (NINT (11.5 * 100000), NINT (10.5 * 100000))]]"
    using cell_change_duplicates [where rnd = id and px = "- 169.5" and py = "- 79.5" and lonp = "10.5"
        and latp = "10.5" and jp = 10 and ip = 10 and qx = "- 168.5" and qy = "- 79.5"
        and lonq = "11.5" and latq = "10.5" and jq = 11 and iq = 10 and fs = Map.empty,
        THEN conjunct2] p q
    by simp
  then show ?thesis
    using p q unfolding n by simp
qed

subsection \<open>Bits, bytes and fields\<close>

lemma length_field_bits [simp]: "length (field_bits n v) = n"
  by (induction n arbitrary: v) simp_all

lemma bits_value_snoc: "bits_value (bs @ [b]) = 2 * bits_value bs + (if b then 1 else 0)"
  by (simp add: bits_value_def)

lemma bits_value_Nil [simp]: "bits_value [] = 0"
  by (simp add: bits_value_def)

lemma bits_value_field_bits: "bits_value (field_bits n v) = nat (v mod 2 ^ n)"
proof (induction n arbitrary: v)
  case 0
  show ?case by simp
next
  case (Suc n)
  have "v mod (2 * 2 ^ n) = 2 * (v div 2 mod 2 ^ n) + v mod 2"
    by (rule zmod_zmult2_eq) simp
  moreover have "0 \<le> v div 2 mod 2 ^ n" by simp
  ultimately show ?case
    by (simp add: bits_value_snoc Suc nat_add_distrib nat_mult_distrib odd_iff_mod_2_eq_one)
qed

lemma bits_value_field_bits_fits:
  "0 \<le> v \<Longrightarrow> v < 2 ^ n \<Longrightarrow> int (bits_value (field_bits n v)) = v"
  by (simp add: bits_value_field_bits)

lemma field_bits_bits_value: "field_bits (length bs) (int (bits_value bs)) = bs"
proof (induction bs rule: rev_induct)
  case Nil
  show ?case by simp
next
  case (snoc b bs)
  have "(2 * int (bits_value bs) + (if b then 1 else 0)) div 2 = int (bits_value bs)"
    by simp
  then show ?case
    using snoc by (simp add: bits_value_snoc)
qed

lemma length_byte_bits [simp]: "length (byte_bits b) = 8"
  by (simp add: byte_bits_def)

lemma length_buffer_bits [simp]: "length (buffer_bits buffer) = 8 * length buffer"
  by (induction buffer) (simp_all add: buffer_bits_def)

lemma length_bits_bytes [simp]: "length (bits_bytes n bs) = n"
  by (induction n arbitrary: bs) simp_all

lemma buffer_bits_bits_bytes:
  "8 * n \<le> length bs \<Longrightarrow> buffer_bits (bits_bytes n bs) = take (8 * n) bs"
proof (induction n arbitrary: bs)
  case 0
  show ?case by (simp add: buffer_bits_def)
next
  case (Suc n)
  have l: "length (take 8 bs) = 8" using Suc.prems by simp
  have "byte_bits (bits_value (take 8 bs)) = take 8 bs"
    unfolding byte_bits_def using field_bits_bits_value [of "take 8 bs"] unfolding l .
  moreover have "buffer_bits (bits_bytes n (drop 8 bs)) = take (8 * n) (drop 8 bs)"
    using Suc.prems by (intro Suc.IH) simp
  ultimately have "buffer_bits (bits_bytes (Suc n) bs) = take 8 bs @ take (8 * n) (drop 8 bs)"
    by (simp add: buffer_bits_def)
  also have "\<dots> = take (8 + 8 * n) bs"
    by (simp add: take_add)
  finally show ?case by simp
qed

lemma length_bit_pack [simp]: "length (bit_pack buffer start numbits v) = length buffer"
  by (simp add: bit_pack_def Let_def)

lemma buffer_bits_bit_pack:
  assumes "start + numbits \<le> 8 * length buffer"
  shows "buffer_bits (bit_pack buffer start numbits v)
       = take start (buffer_bits buffer) @ field_bits numbits v
           @ drop (start + numbits) (buffer_bits buffer)"
  using assms by (simp add: bit_pack_def Let_def buffer_bits_bits_bytes)

lemma buffer_bits_zero: "buffer_bits (replicate n 0) = replicate (8 * n) False"
proof (induction n)
  case 0
  show ?case by (simp add: buffer_bits_def)
next
  case (Suc n)
  have "byte_bits 0 = replicate 8 False"
    by (simp add: byte_bits_def eval_nat_numeral)
  then show ?case
    using Suc by (simp add: buffer_bits_def flip: replicate_add)
qed

text \<open>
  Writing a field right after what has been written so far, into a buffer whose remaining
  bits are zero.
\<close>

lemma bit_pack_next:
  assumes b: "buffer_bits buffer = w @ replicate m False" and p: "length w = pos"
    and n: "numbits \<le> m"
  shows "buffer_bits (bit_pack buffer pos numbits v)
           = (w @ field_bits numbits v) @ replicate (m - numbits) False"
proof -
  have len: "8 * length buffer = pos + m"
    using arg_cong [OF b, of length] p by simp
  then have "pos + numbits \<le> 8 * length buffer" using n by simp
  then show ?thesis
    using p n by (simp add: buffer_bits_bit_pack b)
qed

subsection \<open>The block of a segment as a sequence of fields\<close>

lemma fields_bits_simps [simp]:
  "fields_bits [] = []"
  "fields_bits ((n, v) # fs) = field_bits n v @ fields_bits fs"
  "fields_bits (fs @ gs) = fields_bits fs @ fields_bits gs"
  by (simp_all add: fields_bits_def)

lemma fields_width_simps [simp]:
  "fields_width [] = 0"
  "fields_width ((n, v) # fs) = n + fields_width fs"
  "fields_width (fs @ gs) = fields_width fs + fields_width gs"
  by (simp_all add: fields_width_def)

lemma length_fields_bits [simp]: "length (fields_bits fs) = fields_width fs"
  by (induction fs) auto

lemma pack_fields_append:
  "pack_fields (fs @ gs) bp = pack_fields gs (pack_fields fs bp)"
  by (induction fs bp rule: pack_fields.induct) simp_all

lemma pack_fields_bits:
  assumes "buffer_bits buffer = w @ replicate m False" and "length w = pos"
    and "fields_width fs \<le> m"
  shows "buffer_bits (fst (pack_fields fs (buffer, pos)))
           = w @ fields_bits fs @ replicate (m - fields_width fs) False
       \<and> snd (pack_fields fs (buffer, pos)) = pos + fields_width fs
       \<and> length (fst (pack_fields fs (buffer, pos))) = length buffer"
  using assms
proof (induction fs arbitrary: buffer pos w m)
  case Nil
  then show ?case by simp
next
  case (Cons f fs)
  obtain n v where f: "f = (n, v)" by (cases f)
  have n: "n \<le> m" and r: "fields_width fs \<le> m - n"
    using Cons.prems(3) by (simp_all add: f)
  have b: "buffer_bits (bit_pack buffer pos n v) = (w @ field_bits n v) @ replicate (m - n) False"
    by (rule bit_pack_next [OF Cons.prems(1,2) n])
  have l: "length (w @ field_bits n v) = pos + n"
    using Cons.prems(2) by simp
  show ?case
    using Cons.IH [OF b l r] by (simp add: f add.assoc)
qed

text \<open>Pass 2 writes exactly the header fields and then the offset fields.\<close>

lemma pack_offsets_fields: "pack_offsets h vs bp = pack_fields (offset_fields h vs) bp"
proof (induction vs arbitrary: bp rule: induct_list012)
  case (3 a b rest)
  obtain buffer pos where bp: "bp = (buffer, pos)" by (cases bp)
  show ?case
    using 3(2) by (simp add: bp Let_def)
qed (simp_all add: prod.exhaust)

lemma pack_segment_fields:
  "pack_segment h vs
     = fst (pack_fields (head_fields h vs @ offset_fields h vs)
              (replicate (nat (size_bytes h)) 0, 0))"
  by (simp add: pack_segment_def Let_def pack_fields_append pack_offsets_fields head_fields_def
      add.assoc)

lemma fields_width_offset_fields:
  "fields_width (offset_fields h vs)
     = (length vs - 1) * (nat (lon_offset_bits h) + nat (lat_offset_bits h))"
proof (induction vs rule: induct_list012)
  case (3 a b rest)
  have "length (a # b # rest) - 1 = Suc (length (b # rest) - 1)" by simp
  then show ?case
    using 3(2) by (simp only: offset_fields.simps fields_width_simps mult_Suc add.assoc)
qed simp_all

lemma fields_bits_offset_fields: "fields_bits (offset_fields h vs) = spec_offset_fields h vs"
  by (induction vs rule: induct_list012) (simp_all add: spec_offset_fields_def)

text \<open>
  The bit count of the source counts one pair of offset widths more than the fields take,
  so the buffer is never too short.
\<close>

lemma fields_width_segment:
  "fields_width (head_fields h vs @ offset_fields h vs)
     + nat (lon_offset_bits h) + nat (lat_offset_bits h) = spec_total_bits h (length vs)"
  by (simp add: head_fields_def fields_width_offset_fields spec_total_bits_def)

lemma range_nonneg:
  fixes xs :: "int list"
  assumes b: "\<bar>axis_bias xs\<bar> \<le> max_bias" and l: "2 \<le> length xs"
  shows "0 \<le> snd (diff_minmax xs (99999999, - 99999999)) + axis_bias xs"
    and "\<forall>d \<in> set (deltas xs).
           0 \<le> d + axis_bias xs
           \<and> d + axis_bias xs \<le> snd (diff_minmax xs (99999999, - 99999999)) + axis_bias xs"
proof -
  have ne: "deltas xs \<noteq> []" using l by (simp add: deltas_Nil_iff)
  let ?lo = "Min (set (deltas xs))" and ?hi = "Max (set (deltas xs))"
  have lohi: "?lo \<le> ?hi" using ne by (simp add: Min_le_iff)
  have "axis_bias xs = - min 99999999 ?lo"
    by (simp add: axis_bias_def diff_minmax_deltas [OF ne])
  then have lo: "axis_bias xs = - ?lo" using b by (simp add: max_bias_def min_def split: if_splits)
  then have "- 99999999 \<le> ?hi" using b lohi by (simp add: max_bias_def)
  then have s: "snd (diff_minmax xs (99999999, - 99999999)) = ?hi"
    by (simp add: diff_minmax_deltas [OF ne])
  show "0 \<le> snd (diff_minmax xs (99999999, - 99999999)) + axis_bias xs"
    using s lo lohi by simp
  show "\<forall>d \<in> set (deltas xs).
           0 \<le> d + axis_bias xs
           \<and> d + axis_bias xs \<le> snd (diff_minmax xs (99999999, - 99999999)) + axis_bias xs"
    unfolding s lo by simp
qed

lemma segment_header_pos:
  assumes "segment_header i j vs = Inr h"
  shows "0 < range_x h" and "0 < range_y h"
    and "1 \<le> count_bits h" and "1 \<le> lon_offset_bits h" and "1 \<le> lat_offset_bits h"
proof -
  note H = segment_header_InrD [OF assms]
  have len: "2 \<le> length vs" by (rule segment_header_long [OF assms])
  have bx: "\<bar>axis_bias (map fst vs)\<bar> \<le> max_bias" and bY: "\<bar>axis_bias (map snd vs)\<bar> \<le> max_bias"
    using H(1-4) by (simp_all add: axis_bias_def)
  show rx: "0 < range_x h"
    using range_nonneg(1) [OF bx] len H(1,5) by (auto simp: axis_bias_def Let_def)
  show ry: "0 < range_y h"
    using range_nonneg(1) [OF bY] len H(2,6) by (auto simp: axis_bias_def Let_def)
  have "0 < int (length vs)" using len by (cases vs) simp_all
  then show "1 \<le> count_bits h" using H(7) by (simp add: width_bits_pos)
  show "1 \<le> lon_offset_bits h" using rx H(8) by (simp add: width_bits_pos)
  show "1 \<le> lat_offset_bits h" using ry H(9) by (simp add: width_bits_pos)
qed

lemma segment_header_size:
  assumes "segment_header i j vs = Inr h"
  shows "nat (size_bytes h) = spec_total_bits h (length vs) div 8 + 1"
proof -
  note H = segment_header_InrD [OF assms] and P = segment_header_pos [OF assms]
  have len: "2 \<le> length vs" by (rule segment_header_long [OF assms])
  have "int ((length vs - 1) * (nat (lon_offset_bits h) + nat (lat_offset_bits h)))
      = (int (length vs) - 1) * (lon_offset_bits h + lat_offset_bits h)"
    using P(4,5) len by (simp add: of_nat_diff)
  then have "int (spec_total_bits h (length vs))
      = 15 + count_bits h + lon_offset_bits h + lat_offset_bits h + 87
          + (int (length vs) - 1) * (lon_offset_bits h + lat_offset_bits h)"
    using P(3-5) unfolding spec_total_bits_def by (simp del: of_nat_mult of_nat_add)
  then have "size_bytes h = int (spec_total_bits h (length vs)) div 8 + 1"
    using H(10) by simp
  also have "\<dots> = int (spec_total_bits h (length vs) div 8 + 1)"
    by (simp add: zdiv_int)
  finally show ?thesis by simp
qed

lemma encode_segment_InrD:
  assumes "encode_segment i j vs = Inr buffer"
  obtains h where "segment_header i j vs = Inr h" and "buffer = pack_segment h vs"
  using assms by (auto simp: encode_segment_def split: sum.splits)

lemma pack_segment_bits:
  assumes h: "segment_header i j vs = Inr h"
  shows "buffer_bits (pack_segment h vs)
           = fields_bits (head_fields h vs @ offset_fields h vs)
               @ replicate (8 * nat (size_bytes h)
                              - fields_width (head_fields h vs @ offset_fields h vs)) False"
    and "length (pack_segment h vs) = nat (size_bytes h)"
    and "fields_width (head_fields h vs @ offset_fields h vs) \<le> 8 * nat (size_bytes h)"
proof -
  let ?fs = "head_fields h vs @ offset_fields h vs"
  let ?z = "replicate (nat (size_bytes h)) (0 :: byte)"
  have z: "buffer_bits ?z = [] @ replicate (8 * nat (size_bytes h)) False"
    by (simp add: buffer_bits_zero)
  have "fields_width ?fs \<le> spec_total_bits h (length vs)"
    using fields_width_segment [of h vs] by simp
  also have "\<dots> \<le> 8 * nat (size_bytes h)"
    unfolding segment_header_size [OF h] by simp
  finally show w: "fields_width ?fs \<le> 8 * nat (size_bytes h)" .
  show "buffer_bits (pack_segment h vs)
           = fields_bits ?fs @ replicate (8 * nat (size_bytes h) - fields_width ?fs) False"
    using pack_fields_bits [OF z _ w] by (simp add: pack_segment_fields)
  show "length (pack_segment h vs) = nat (size_bytes h)"
    using pack_fields_bits [OF z _ w] by (simp add: pack_segment_fields)
qed

text \<open>
  C2. For every segment the encoder emits, the bits of the block, most significant bit of
  each byte first, are the fields in the order of the claim, each of its width and most
  significant bit first: \<open>count_bits\<close> (5), \<open>lon_offset_bits\<close> (5), \<open>lat_offset_bits\<close> (5),
  the count (\<open>count_bits\<close>), the biases plus 131071 (18 each), \<open>x[0]\<close> (26), \<open>y[0]\<close> (25),
  then for each later vertex its two biased differences (\<open>lon_offset_bits\<close> and
  \<open>lat_offset_bits\<close>); zero bits fill the rest. The block has
  \<open>totalBits div 8 + 1\<close> bytes, with \<open>totalBits\<close> as in the claim.
\<close>

theorem block_layout:
  assumes "encode_segment i j vs = Inr buffer"
  shows "\<exists>h. segment_header i j vs = Inr h
       \<and> buffer_bits buffer
           = field_bits 5 (count_bits h) @ field_bits 5 (lon_offset_bits h)
               @ field_bits 5 (lat_offset_bits h)
               @ field_bits (nat (count_bits h)) (int (length vs))
               @ field_bits 18 (bias_x h + 131071) @ field_bits 18 (bias_y h + 131071)
               @ field_bits 26 (fst (hd vs)) @ field_bits 25 (snd (hd vs))
               @ spec_offset_fields h vs
               @ replicate (8 * length buffer + nat (lon_offset_bits h) + nat (lat_offset_bits h)
                              - spec_total_bits h (length vs)) False
       \<and> length buffer = spec_total_bits h (length vs) div 8 + 1"
proof -
  obtain h where h: "segment_header i j vs = Inr h" and b: "buffer = pack_segment h vs"
    using assms by (rule encode_segment_InrD)
  let ?fs = "head_fields h vs @ offset_fields h vs"
  note B = pack_segment_bits [OF h]
  have len: "length buffer = spec_total_bits h (length vs) div 8 + 1"
    using B(2) segment_header_size [OF h] b by simp
  have "8 * nat (size_bytes h) - fields_width ?fs
      = 8 * length buffer + nat (lon_offset_bits h) + nat (lat_offset_bits h)
          - spec_total_bits h (length vs)"
    using fields_width_segment [of h vs] B(2) b by simp
  then have "buffer_bits buffer
           = field_bits 5 (count_bits h) @ field_bits 5 (lon_offset_bits h)
               @ field_bits 5 (lat_offset_bits h)
               @ field_bits (nat (count_bits h)) (int (length vs))
               @ field_bits 18 (bias_x h + 131071) @ field_bits 18 (bias_y h + 131071)
               @ field_bits 26 (fst (hd vs)) @ field_bits 25 (snd (hd vs))
               @ spec_offset_fields h vs
               @ replicate (8 * length buffer + nat (lon_offset_bits h) + nat (lat_offset_bits h)
                              - spec_total_bits h (length vs)) False"
    using B(1) by (simp add: b head_fields_def fields_bits_offset_fields max_bias_def)
  with h len show ?thesis by blast
qed

subsection \<open>Reading a block back\<close>

lemma bit_unpack_at:
  assumes "buffer_bits buffer = A @ field_bits n v @ B" and "length A = pos"
    and "0 \<le> v" and "v < 2 ^ n"
  shows "bit_unpack buffer pos n = v"
  using assms by (simp add: bit_unpack_def bits_value_field_bits_fits)

lemma unpack_offsets_fields:
  assumes "buffer_bits buffer = A @ fields_bits (offset_fields h (p # rest)) @ B"
    and "length A = pos"
    and "\<forall>(n, v) \<in> set (offset_fields h (p # rest)). 0 \<le> v \<and> v < 2 ^ n"
  shows "unpack_offsets buffer (nat (lon_offset_bits h)) (nat (lat_offset_bits h))
           (bias_x h) (bias_y h) (length rest) pos p = rest"
  using assms
proof (induction rest arbitrary: p A pos)
  case Nil
  show ?case by simp
next
  case (Cons q rest)
  let ?L = "nat (lon_offset_bits h)" and ?A = "nat (lat_offset_bits h)"
  let ?xoff = "(fst q - fst p) + bias_x h" and ?yoff = "(snd q - snd p) + bias_y h"
  have fx: "0 \<le> ?xoff \<and> ?xoff < 2 ^ ?L" and fy: "0 \<le> ?yoff \<and> ?yoff < 2 ^ ?A"
    and fr: "\<forall>(n, v) \<in> set (offset_fields h (q # rest)). 0 \<le> v \<and> v < 2 ^ n"
    using Cons.prems(3) by simp_all
  have b: "buffer_bits buffer
      = A @ field_bits ?L ?xoff @ (field_bits ?A ?yoff @ fields_bits (offset_fields h (q # rest)) @ B)"
    using Cons.prems(1) by simp
  have ux: "bit_unpack buffer pos ?L = ?xoff"
    using bit_unpack_at [OF b Cons.prems(2)] fx by simp
  have b2: "buffer_bits buffer
      = (A @ field_bits ?L ?xoff) @ field_bits ?A ?yoff @ (fields_bits (offset_fields h (q # rest)) @ B)"
    using b by simp
  have uy: "bit_unpack buffer (pos + ?L) ?A = ?yoff"
    using bit_unpack_at [OF b2] Cons.prems(2) fy by simp
  have b3: "buffer_bits buffer
      = (A @ field_bits ?L ?xoff @ field_bits ?A ?yoff) @ fields_bits (offset_fields h (q # rest)) @ B"
    using b by simp
  have "unpack_offsets buffer ?L ?A (bias_x h) (bias_y h) (length rest) (pos + ?L + ?A) q = rest"
    using Cons.IH [OF b3 _ fr] Cons.prems(2) by (simp add: add.assoc)
  then show ?case
    by (simp add: ux uy Let_def)
qed

lemma offset_fields_set:
  "(n, v) \<in> set (offset_fields h vs) \<Longrightarrow>
     (n = nat (lon_offset_bits h) \<and> (\<exists>d \<in> set (deltas (map fst vs)). v = d + bias_x h))
   \<or> (n = nat (lat_offset_bits h) \<and> (\<exists>d \<in> set (deltas (map snd vs)). v = d + bias_y h))"
  by (induction vs rule: induct_list012) auto

lemma offset_fields_fit:
  assumes h: "segment_header i j vs = Inr h"
  shows "\<forall>(n, v) \<in> set (offset_fields h vs). 0 \<le> v \<and> v < 2 ^ n"
proof -
  note H = segment_header_InrD [OF h] and P = segment_header_pos [OF h]
  have len: "2 \<le> length vs" by (rule segment_header_long [OF h])
  have bx: "\<bar>axis_bias (map fst vs)\<bar> \<le> max_bias" and ex: "axis_bias (map fst vs) = bias_x h"
    using H(1,3) by (simp_all add: axis_bias_def)
  have bY: "\<bar>axis_bias (map snd vs)\<bar> \<le> max_bias" and ey: "axis_bias (map snd vs) = bias_y h"
    using H(2,4) by (simp_all add: axis_bias_def)
  have X: "0 \<le> d + bias_x h \<and> d + bias_x h < 2 ^ nat (lon_offset_bits h)"
    if "d \<in> set (deltas (map fst vs))" for d
  proof -
    have "0 \<le> d + bias_x h" and "d + bias_x h \<le> range_x h"
      using range_nonneg(2) [OF bx] that len H(5) unfolding ex by (auto simp: Let_def)
    then show ?thesis
      using width_bits_enough [OF P(1)] H(8) by simp
  qed
  have Y: "0 \<le> d + bias_y h \<and> d + bias_y h < 2 ^ nat (lat_offset_bits h)"
    if "d \<in> set (deltas (map snd vs))" for d
  proof -
    have "0 \<le> d + bias_y h" and "d + bias_y h \<le> range_y h"
      using range_nonneg(2) [OF bY] that len H(6) unfolding ey by (auto simp: Let_def)
    then show ?thesis
      using width_bits_enough [OF P(2)] H(9) by simp
  qed
  show ?thesis
    using offset_fields_set [of _ _ h vs] X Y by blast
qed

lemma segment_header_widths:
  assumes h: "segment_header i j vs = Inr h"
    and c: "\<forall>v \<in> set vs. 0 \<le> fst v \<and> fst v \<le> 35999999 \<and> 0 \<le> snd v \<and> snd v \<le> 17999999"
  shows "lon_offset_bits h \<le> 26" and "lat_offset_bits h \<le> 25"
    and "int (length vs) \<le> m \<Longrightarrow> width_bits m = w \<Longrightarrow> count_bits h \<le> w"
proof -
  note H = segment_header_InrD [OF h] and P = segment_header_pos [OF h]
  have len: "2 \<le> length vs" by (rule segment_header_long [OF h])
  have bx: "\<bar>axis_bias (map fst vs)\<bar> \<le> max_bias" and bY: "\<bar>axis_bias (map snd vs)\<bar> \<le> max_bias"
    using H(1-4) by (simp_all add: axis_bias_def)
  have rx: "range_x h \<le> 36131070"
    using range_bound(1) [OF bx, of 35999999] c len H(1,5)
    by (auto simp: axis_bias_def max_bias_def Let_def)
  have ry: "range_y h \<le> 18131070"
    using range_bound(1) [OF bY, of 17999999] c len H(2,6)
    by (auto simp: axis_bias_def max_bias_def Let_def)
  have w2: "width_bits 36131070 = 26" by code_simp
  have w3: "width_bits 18131070 = 25" by code_simp
  show "lon_offset_bits h \<le> 26"
    using width_bits_mono [OF P(1) rx] H(8) w2 by simp
  show "lat_offset_bits h \<le> 25"
    using width_bits_mono [OF P(2) ry] H(9) w3 by simp
  have "0 < int (length vs)" using len by (cases vs) simp_all
  then show "int (length vs) \<le> m \<Longrightarrow> width_bits m = w \<Longrightarrow> count_bits h \<le> w"
    using width_bits_mono [of "int (length vs)" m] H(7) by simp
qed

text \<open>
  C1. A segment that pass 2 packs (both biases within range, which needs at least two
  vertices), with coordinates in their declared ranges and a bit count that the 32-bit
  variable \<open>size\<close> of the source holds, is read back exactly by the decoder: the decoded
  vertices are the original ones. The reasons are part of the statement: the count fits its
  width, the biased biases are in 0..262142, and every biased difference is between 0 and
  the range, which fits its width.
\<close>

theorem round_trip:
  assumes h: "segment_header i j vs = Inr h"
    and c: "\<forall>v \<in> set vs. 0 \<le> fst v \<and> fst v \<le> 35999999 \<and> 0 \<le> snd v \<and> snd v \<le> 17999999"
    and n: "spec_total_bits h (length vs) < 2 ^ 31"
  shows "encode_segment i j vs = Inr (pack_segment h vs)
       \<and> decode_segment (pack_segment h vs) = vs
       \<and> int (length vs) < 2 ^ nat (count_bits h)
       \<and> 0 \<le> bias_x h + max_bias \<and> bias_x h + max_bias \<le> 262142
       \<and> 0 \<le> bias_y h + max_bias \<and> bias_y h + max_bias \<le> 262142
       \<and> (\<forall>d \<in> set (deltas (map fst vs)).
             0 \<le> d + bias_x h \<and> d + bias_x h \<le> range_x h
             \<and> range_x h < 2 ^ nat (lon_offset_bits h))
       \<and> (\<forall>d \<in> set (deltas (map snd vs)).
             0 \<le> d + bias_y h \<and> d + bias_y h \<le> range_y h
             \<and> range_y h < 2 ^ nat (lat_offset_bits h))"
proof -
  note H = segment_header_InrD [OF h] and P = segment_header_pos [OF h]
    and W = segment_header_widths [OF h c]
  have len: "2 \<le> length vs" by (rule segment_header_long [OF h])
  then obtain p rest where vs: "vs = p # rest" by (cases vs) simp_all
  let ?buffer = "pack_segment h vs"
  let ?C = "nat (count_bits h)" and ?L = "nat (lon_offset_bits h)"
    and ?A = "nat (lat_offset_bits h)"
  let ?W = "field_bits 5 (count_bits h) @ field_bits 5 (lon_offset_bits h)
               @ field_bits 5 (lat_offset_bits h)
               @ field_bits ?C (int (length vs))
               @ field_bits 18 (bias_x h + max_bias) @ field_bits 18 (bias_y h + max_bias)
               @ field_bits 26 (fst p) @ field_bits 25 (snd p)"
  let ?pad = "replicate (8 * nat (size_bytes h)
                          - fields_width (head_fields h vs @ offset_fields h vs)) False"
  have bits: "buffer_bits ?buffer = ?W @ fields_bits (offset_fields h (p # rest)) @ ?pad"
    using pack_segment_bits(1) [OF h] by (simp add: head_fields_def vs)
  \<comment> \<open>the count is at most \<open>2^30\<close>, so its width fits the 5-bit field\<close>
  have "2 * (length vs - 1) \<le> (length vs - 1) * (?L + ?A)"
    using P(4,5) by (simp add: mult.commute [of 2] del: mult_2_right)
       (metis (no_types, lifting) One_nat_def add_mono mult_le_mono2 nat_1 nat_mono one_add_one)
  also have "\<dots> \<le> spec_total_bits h (length vs)"
    by (simp add: spec_total_bits_def)
  finally have "int (length vs) \<le> 1073741824"
    using n by simp
  moreover have "width_bits 1073741824 = 31" by code_simp
  ultimately have cb: "count_bits h \<le> 31" by (rule W(3))
  have cnt: "int (length vs) < 2 ^ ?C"
    using width_bits_enough [of "int (length vs)"] H(7) by (simp add: vs)
  have bx: "0 \<le> bias_x h + max_bias \<and> bias_x h + max_bias \<le> 262142"
    and bY: "0 \<le> bias_y h + max_bias \<and> bias_y h + max_bias \<le> 262142"
    using H(3,4) by (auto simp: max_bias_def)
  have p: "0 \<le> fst p \<and> fst p \<le> 35999999 \<and> 0 \<le> snd p \<and> snd p \<le> 17999999"
    using c by (simp add: vs)
  have u1: "bit_unpack ?buffer 0 5 = count_bits h"
    using P(3) cb by (simp add: bit_unpack_def bits bits_value_field_bits_fits)
  have u2: "bit_unpack ?buffer 5 5 = lon_offset_bits h"
    using P(4) W(1) by (simp add: bit_unpack_def bits bits_value_field_bits_fits)
  have u3: "bit_unpack ?buffer 10 5 = lat_offset_bits h"
    using P(5) W(2) by (simp add: bit_unpack_def bits bits_value_field_bits_fits)
  have u4: "bit_unpack ?buffer 15 ?C = int (length vs)"
    using cnt by (simp add: bit_unpack_def bits bits_value_field_bits_fits)
  have u5: "bit_unpack ?buffer (15 + ?C) 18 = bias_x h + max_bias"
    using bx by (simp add: bit_unpack_def bits bits_value_field_bits_fits)
  have u6: "bit_unpack ?buffer (15 + ?C + 18) 18 = bias_y h + max_bias"
    using bY by (simp add: bit_unpack_def bits bits_value_field_bits_fits)
  have u7: "bit_unpack ?buffer (15 + ?C + 36) 26 = fst p"
    using p by (simp add: bit_unpack_def bits bits_value_field_bits_fits)
  have u8: "bit_unpack ?buffer (15 + ?C + 62) 25 = snd p"
    using p by (simp add: bit_unpack_def bits bits_value_field_bits_fits)
  have fit: "\<forall>(n, v) \<in> set (offset_fields h (p # rest)). 0 \<le> v \<and> v < 2 ^ n"
    using offset_fields_fit [OF h] by (simp add: vs)
  have u9: "unpack_offsets ?buffer ?L ?A (bias_x h) (bias_y h) (length rest) (15 + ?C + 87) p = rest"
    by (rule unpack_offsets_fields [OF bits _ fit]) simp
  have "decode_segment ?buffer = vs"
    unfolding decode_segment_def Let_def u1 u2 u3 u4 u5 u6 u7 u8
    using u9 by (simp add: vs nat_add_distrib)
  moreover have "encode_segment i j vs = Inr ?buffer"
    using h by (simp add: encode_segment_def)
  moreover have "\<forall>d \<in> set (deltas (map fst vs)).
             0 \<le> d + bias_x h \<and> d + bias_x h \<le> range_x h
             \<and> range_x h < 2 ^ nat (lon_offset_bits h)"
    using range_nonneg(2) [of "map fst vs"] H(1,3,5,8) len width_bits_enough [OF P(1)]
    by (auto simp: axis_bias_def Let_def)
  moreover have "\<forall>d \<in> set (deltas (map snd vs)).
             0 \<le> d + bias_y h \<and> d + bias_y h \<le> range_y h
             \<and> range_y h < 2 ^ nat (lat_offset_bits h)"
    using range_nonneg(2) [of "map snd vs"] H(2,4,6,9) len width_bits_enough [OF P(2)]
    by (auto simp: axis_bias_def Let_def)
  ultimately show ?thesis
    using cnt bx bY by blast
qed

text \<open>C2, at a segment of three vertices: 132 bits are counted and the block has 17 bytes.\<close>

theorem block_layout_witness:
  "encode_segment 10 20 [(2050000, 1050000), (2050005, 1049990), (2050020, 1049995)]
     = Inr [25, 10, 223, 255, 168, 0, 36, 31, 71, 208, 8, 2, 200, 0, 41, 224, 0]
   \<and> (\<exists>h. segment_header 10 20 [(2050000, 1050000), (2050005, 1049990), (2050020, 1049995)]
             = Inr h
          \<and> length [25, 10, 223, 255, 168, 0, 36, 31, 71, 208, 8, 2, 200, 0, 41, 224, 0 :: byte]
             = spec_total_bits h 3 div 8 + 1
          \<and> spec_total_bits h 3 = 132)"
proof -
  have e: "encode_segment 10 20 [(2050000, 1050000), (2050005, 1049990), (2050020, 1049995)]
     = Inr [25, 10, 223, 255, 168, 0, 36, 31, 71, 208, 8, 2, 200, 0, 41, 224, 0]"
    by code_simp
  have h: "segment_header 10 20 [(2050000, 1050000), (2050005, 1049990), (2050020, 1049995)]
     = Inr \<lparr>count_bits = 3, lon_offset_bits = 4, lat_offset_bits = 5, bias_x = - 5,
            bias_y = 10, range_x = 10, range_y = 15, size_bytes = 17\<rparr>"
    by code_simp
  show ?thesis
    using block_layout [OF e] e h by (auto simp: spec_total_bits_def)
qed

text \<open>C1, at the same segment: its 17 bytes decode to its three vertices.\<close>

theorem round_trip_witness:
  "segment_header 10 20 [(2050000, 1050000), (2050005, 1049990), (2050020, 1049995)]
     = Inr \<lparr>count_bits = 3, lon_offset_bits = 4, lat_offset_bits = 5, bias_x = - 5,
            bias_y = 10, range_x = 10, range_y = 15, size_bytes = 17\<rparr>
   \<and> encode_segment 10 20 [(2050000, 1050000), (2050005, 1049990), (2050020, 1049995)]
     = Inr [25, 10, 223, 255, 168, 0, 36, 31, 71, 208, 8, 2, 200, 0, 41, 224, 0]
   \<and> decode_segment [25, 10, 223, 255, 168, 0, 36, 31, 71, 208, 8, 2, 200, 0, 41, 224, 0]
     = [(2050000, 1050000), (2050005, 1049990), (2050020, 1049995)]"
proof -
  let ?vs = "[(2050000, 1050000), (2050005, 1049990), (2050020, 1049995)] :: vertex list"
  let ?h = "\<lparr>count_bits = 3, lon_offset_bits = 4, lat_offset_bits = 5, bias_x = - 5,
            bias_y = 10, range_x = 10, range_y = 15, size_bytes = 17\<rparr>"
  have h: "segment_header 10 20 ?vs = Inr ?h"
    by code_simp
  have e: "encode_segment 10 20 ?vs
     = Inr [25, 10, 223, 255, 168, 0, 36, 31, 71, 208, 8, 2, 200, 0, 41, 224, 0]"
    by code_simp
  have c: "\<forall>v \<in> set ?vs. 0 \<le> fst v \<and> fst v \<le> 35999999 \<and> 0 \<le> snd v \<and> snd v \<le> 17999999"
    by simp
  have n: "spec_total_bits ?h (length ?vs) < 2 ^ 31"
    by (simp add: spec_total_bits_def)
  have "encode_segment 10 20 ?vs = Inr (pack_segment ?h ?vs)
      \<and> decode_segment (pack_segment ?h ?vs) = ?vs"
    using round_trip [OF h c n] by blast
  then show ?thesis
    using h e by simp
qed

subsection \<open>The exits of pass 2\<close>

text \<open>
  Coordinates between 0 and a bound below \<open>2^31\<close> have differences and a bias within the
  32-bit range.
\<close>

lemma deltas_bounded:
  fixes xs :: "int list"
  assumes "\<forall>x \<in> set xs. 0 \<le> x \<and> x \<le> m" and "d \<in> set (deltas xs)"
  shows "- m \<le> d \<and> d \<le> m"
proof -
  obtain a b where ab: "a \<in> set xs" "b \<in> set xs" "d = b - a"
    using deltas_in_set [OF assms(2)] by blast
  then have "0 \<le> a" "a \<le> m" "0 \<le> b" "b \<le> m"
    using assms(1) by auto
  then show ?thesis
    using ab(3) by linarith
qed

lemma deltas_int32:
  fixes xs :: "int list"
  assumes "\<forall>x \<in> set xs. 0 \<le> x \<and> x \<le> m" and "m \<le> 2147483647"
  shows "list_all int32 (deltas xs)"
  unfolding list_all_iff int32_def
  using deltas_bounded [OF assms(1)] assms(2) by fastforce

lemma axis_bias_int32:
  fixes xs :: "int list"
  assumes "\<forall>x \<in> set xs. 0 \<le> x \<and> x \<le> m" and "m \<le> 2147483647"
  shows "int32 (axis_bias xs)"
proof (cases "deltas xs = []")
  case True
  then show ?thesis
    by (simp add: axis_bias_def diff_minmax_short int32_def)
next
  case False
  let ?lo = "Min (set (deltas xs))"
  have "?lo \<in> set (deltas xs)" using False by (intro Min_in) simp_all
  then have "- m \<le> ?lo \<and> ?lo \<le> m" by (rule deltas_bounded [OF assms(1)])
  moreover have "axis_bias xs = - min 99999999 ?lo"
    by (simp add: axis_bias_def diff_minmax_deltas [OF False])
  ultimately show ?thesis
    using assms(2) by (simp add: int32_def min_def)
qed

text \<open>The results of the header computation, by the biases.\<close>

lemma segment_header_exits:
  assumes "list_all int32 (deltas (map fst vs))" and "list_all int32 (deltas (map snd vs))"
    and "int32 (axis_bias (map fst vs))" and "int32 (axis_bias (map snd vs))"
  shows "\<bar>axis_bias (map fst vs)\<bar> > max_bias \<Longrightarrow>
           segment_header i j vs = Inl (LonBiasOutOfRange i j (axis_bias (map fst vs)))"
    and "\<bar>axis_bias (map fst vs)\<bar> \<le> max_bias \<Longrightarrow> \<bar>axis_bias (map snd vs)\<bar> > max_bias \<Longrightarrow>
           segment_header i j vs = Inl (LatBiasOutOfRange i j (axis_bias (map snd vs)))"
  using assms by (auto simp: segment_header_def axis_bias_def Let_def)

lemma segment_header_no_bias_exit:
  assumes "\<bar>axis_bias (map fst vs)\<bar> \<le> max_bias" and "\<bar>axis_bias (map snd vs)\<bar> \<le> max_bias"
  shows "(\<exists>h. segment_header i j vs = Inr h) \<or> segment_header i j vs = Inl Int32Overflow"
  using assms by (auto simp: segment_header_def axis_bias_def Let_def)

lemma segment_header_overflowD:
  assumes "segment_header i j vs = Inl Int32Overflow"
  shows "\<not> list_all int32 (deltas (map fst vs)) \<or> \<not> list_all int32 (deltas (map snd vs))
       \<or> \<not> int32 (axis_bias (map fst vs)) \<or> \<not> int32 (axis_bias (map snd vs))
       \<or> \<not> int32 (snd (diff_minmax (map fst vs) (99999999, - 99999999)) + axis_bias (map fst vs))
       \<or> \<not> int32 (snd (diff_minmax (map snd vs) (99999999, - 99999999)) + axis_bias (map snd vs))
       \<or> \<not> int32
            (15 + width_bits (int (length vs))
               + width_bits
                   (let r = snd (diff_minmax (map fst vs) (99999999, - 99999999))
                              + axis_bias (map fst vs)
                    in if r = 0 then 1 else r)
               + width_bits
                   (let r = snd (diff_minmax (map snd vs) (99999999, - 99999999))
                              + axis_bias (map snd vs)
                    in if r = 0 then 1 else r)
               + 87
               + (int (length vs) - 1)
                   * (width_bits
                        (let r = snd (diff_minmax (map fst vs) (99999999, - 99999999))
                                   + axis_bias (map fst vs)
                         in if r = 0 then 1 else r)
                      + width_bits
                          (let r = snd (diff_minmax (map snd vs) (99999999, - 99999999))
                                     + axis_bias (map snd vs)
                           in if r = 0 then 1 else r)))"
  using assms
  unfolding segment_header_def axis_bias_def Let_def
  by (auto split: if_splits)

text \<open>
  With coordinates between 0 and 36000000 along x and between 0 and 18000000 along y (the
  values that pass 1 stores for a raw longitude in [-180, 180] and a raw latitude in
  [-90, 90]; they include the declared ranges), biases within range and fewer than
  \<open>2^25\<close> vertices, the header is computed: no computation leaves the 32-bit range.
\<close>

lemma segment_header_packs:
  assumes c: "\<forall>v \<in> set vs. 0 \<le> fst v \<and> fst v \<le> 36000000 \<and> 0 \<le> snd v \<and> snd v \<le> 18000000"
    and bx: "\<bar>axis_bias (map fst vs)\<bar> \<le> max_bias" and bY: "\<bar>axis_bias (map snd vs)\<bar> \<le> max_bias"
    and n: "length vs < 2 ^ 25"
  shows "\<exists>h. segment_header i j vs = Inr h"
proof -
  let ?xs = "map fst vs" and ?ys = "map snd vs"
  let ?rx = "snd (diff_minmax ?xs (99999999, - 99999999)) + axis_bias ?xs"
  let ?ry = "snd (diff_minmax ?ys (99999999, - 99999999)) + axis_bias ?ys"
  let ?fx = "let r = ?rx in if r = 0 then 1 else r"
  let ?fy = "let r = ?ry in if r = 0 then 1 else r"
  let ?n = "int (length vs)"
  have cx: "\<forall>x \<in> set ?xs. 0 \<le> x \<and> x \<le> 36000000" and cy: "\<forall>y \<in> set ?ys. 0 \<le> y \<and> y \<le> 18000000"
    using c by auto
  have len: "2 \<le> length vs"
  proof (rule ccontr)
    assume "\<not> 2 \<le> length vs"
    then have "deltas ?xs = []" by (simp add: deltas_Nil_iff)
    then have "axis_bias ?xs = - 99999999" by (simp add: axis_bias_def diff_minmax_short)
    then show False using bx by (simp add: max_bias_def)
  qed
  have d: "list_all int32 (deltas ?xs)" "list_all int32 (deltas ?ys)"
    using deltas_int32 [OF cx] deltas_int32 [OF cy] by simp_all
  have b: "int32 (axis_bias ?xs)" "int32 (axis_bias ?ys)"
    using axis_bias_int32 [OF cx] axis_bias_int32 [OF cy] by simp_all
  have rx: "0 \<le> ?rx" "?rx \<le> 36131071"
    using range_bound [OF bx _ cx] len by (simp_all add: max_bias_def)
  have ry: "0 \<le> ?ry" "?ry \<le> 18131071"
    using range_bound [OF bY _ cy] len by (simp_all add: max_bias_def)
  have r: "int32 ?rx" "int32 ?ry"
    using rx ry by (simp_all add: int32_def)
  have fx: "0 < ?fx" "?fx \<le> 36131071" and fy: "0 < ?fy" "?fy \<le> 18131071"
    using rx ry by (simp_all add: Let_def)
  have cnt: "0 < ?n" "?n \<le> 33554431"
    using len n by auto
  have w1: "width_bits 33554431 = 26" by code_simp
  have w2: "width_bits 36131071 = 26" by code_simp
  have w3: "width_bits 18131071 = 25" by code_simp
  define C where "C = width_bits ?n"
  define L where "L = width_bits ?fx"
  define A where "A = width_bits ?fy"
  have C: "1 \<le> C" "C \<le> 26" and L: "1 \<le> L" "L \<le> 26" and A: "1 \<le> A" "A \<le> 25"
    using width_bits_le [OF cnt w1] width_bits_le [OF fx w2] width_bits_le [OF fy w3]
    by (simp_all add: C_def L_def A_def)
  have "(?n - 1) * (L + A) \<le> (?n - 1) * 51"
    using cnt L A by (intro mult_left_mono) simp_all
  moreover have "0 \<le> (?n - 1) * (L + A)"
    using cnt L A by simp
  ultimately have "int32 (15 + C + L + A + 87 + (?n - 1) * (L + A))"
    using C L A cnt by (simp add: int32_def)
  then have "segment_header i j vs \<noteq> Inl Int32Overflow"
    using segment_header_overflowD [of i j vs] d b r unfolding C_def L_def A_def by blast
  then show ?thesis
    using segment_header_no_bias_exit [OF bx bY, of i j] by simp
qed

text \<open>
  C6, as stated, fails: the exit is not before any byte of the cell is in the output. The
  staging file of cell \<open>(i, j) = (10, 22)\<close> holds a segment within range and then one whose
  step along x is 200000; the 14 bytes of the first block are in the output file when the
  second segment exits.
\<close>

theorem bias_range_error_counterexample:
  "result_exit (encode_cell (replicate 12 0) 10 22
       \<lparr>files = [(22, 10) \<mapsto> [[(2250000, 1050000), (2250010, 1050010)],
                                 [(2050000, 1050000), (2250000, 1050000)]]],
        ofp = [], num_segments = 0, num_vertices = 0, packed = 0\<rparr>)
     = Some (LonBiasOutOfRange 10 22 (- 200000))
   \<and> result_ofp (encode_cell (replicate 12 0) 10 22
       \<lparr>files = [(22, 10) \<mapsto> [[(2250000, 1050000), (2250010, 1050010)],
                                 [(2050000, 1050000), (2250000, 1050000)]]],
        ofp = [], num_segments = 0, num_vertices = 0, packed = 0\<rparr>)
     = [16, 67, 63, 254, 175, 255, 168, 68, 170, 32, 16, 5, 144, 0]"
  by code_simp

text \<open>
  C6, amended. A segment \<open>r\<close> is encoded when it is the head of the records left to read
  of its cell \<open>(i, j)\<close>, in the state \<open>s\<close> that the earlier records have produced; its
  coordinates are between 0 and 36000000 along x and between 0 and 18000000 along y. If
  the bias along x is beyond \<open>max_bias\<close> in absolute value, the run exits with the cell
  indices and that bias, and the output file is what it was before this segment (the
  blocks of the earlier segments of the cell are in it); the same for the bias along y,
  tested second. If both biases are within range, no such exit occurs for this segment;
  with fewer than \<open>2^25\<close> vertices its block is appended and the next record is read. An
  exit inside a cell is the result of the whole run over the cells.
\<close>

theorem bias_range_error:
  assumes "r \<noteq> []"
    and "\<forall>v \<in> set r. 0 \<le> fst v \<and> fst v \<le> 36000000 \<and> 0 \<le> snd v \<and> snd v \<le> 18000000"
  shows "(\<bar>axis_bias (map fst r)\<bar> > max_bias \<longrightarrow>
            (\<exists>s'. encode_records i j (r # rest) s
                    = Inl (LonBiasOutOfRange i j (axis_bias (map fst r)), s')
                  \<and> ofp s' = ofp s))
       \<and> (\<bar>axis_bias (map fst r)\<bar> \<le> max_bias \<and> \<bar>axis_bias (map snd r)\<bar> > max_bias \<longrightarrow>
            (\<exists>s'. encode_records i j (r # rest) s
                    = Inl (LatBiasOutOfRange i j (axis_bias (map snd r)), s')
                  \<and> ofp s' = ofp s))
       \<and> (\<bar>axis_bias (map fst r)\<bar> \<le> max_bias \<and> \<bar>axis_bias (map snd r)\<bar> \<le> max_bias \<longrightarrow>
            (\<forall>a b v. encode_segment i j r \<noteq> Inl (LonBiasOutOfRange a b v)
                    \<and> encode_segment i j r \<noteq> Inl (LatBiasOutOfRange a b v)))
       \<and> (\<bar>axis_bias (map fst r)\<bar> \<le> max_bias \<and> \<bar>axis_bias (map snd r)\<bar> \<le> max_bias
            \<and> length r < 2 ^ 25 \<longrightarrow>
            (\<exists>buffer. encode_segment i j r = Inr buffer
                  \<and> encode_records i j (r # rest) s
                      = encode_records i j rest
                          (s\<lparr>num_vertices := num_vertices s + int (length r),
                             num_segments := num_segments s + 1,
                             packed := packed s + int (length r),
                             ofp := ofp s @ buffer\<rparr>)))
       \<and> (\<forall>x recs cs head_buf.
             files s (j, i) = Some recs
             \<and> encode_records i j recs (s\<lparr>num_segments := 0, num_vertices := 0\<rparr>) = Inl x
             \<longrightarrow> encode_cells head_buf ((i, j) # cs) s = Inl x)"
proof -
  have cx: "\<forall>x \<in> set (map fst r). 0 \<le> x \<and> x \<le> 36000000"
    and cy: "\<forall>y \<in> set (map snd r). 0 \<le> y \<and> y \<le> 18000000"
    using assms(2) by auto
  note E = segment_header_exits [OF deltas_int32 [OF cx] deltas_int32 [OF cy]
      axis_bias_int32 [OF cx] axis_bias_int32 [OF cy], simplified, of i j]
  show ?thesis
  proof (intro conjI impI allI)
    assume "\<bar>axis_bias (map fst r)\<bar> > max_bias"
    then have "segment_header i j r = Inl (LonBiasOutOfRange i j (axis_bias (map fst r)))"
      by (rule E(1))
    then show "\<exists>s'. encode_records i j (r # rest) s
                    = Inl (LonBiasOutOfRange i j (axis_bias (map fst r)), s') \<and> ofp s' = ofp s"
      using assms(1) by (simp add: encode_segment_def Let_def)
  next
    assume "\<bar>axis_bias (map fst r)\<bar> \<le> max_bias \<and> \<bar>axis_bias (map snd r)\<bar> > max_bias"
    then have "segment_header i j r = Inl (LatBiasOutOfRange i j (axis_bias (map snd r)))"
      using E(2) by simp
    then show "\<exists>s'. encode_records i j (r # rest) s
                    = Inl (LatBiasOutOfRange i j (axis_bias (map snd r)), s') \<and> ofp s' = ofp s"
      using assms(1) by (simp add: encode_segment_def Let_def)
  next
    fix a b v
    assume "\<bar>axis_bias (map fst r)\<bar> \<le> max_bias \<and> \<bar>axis_bias (map snd r)\<bar> \<le> max_bias"
    then have n: "(\<exists>h. segment_header i j r = Inr h) \<or> segment_header i j r = Inl Int32Overflow"
      using segment_header_no_bias_exit [of r i j] by simp
    from n show "encode_segment i j r \<noteq> Inl (LonBiasOutOfRange a b v)"
      by (auto simp: encode_segment_def)
    from n show "encode_segment i j r \<noteq> Inl (LatBiasOutOfRange a b v)"
      by (auto simp: encode_segment_def)
  next
    assume "\<bar>axis_bias (map fst r)\<bar> \<le> max_bias \<and> \<bar>axis_bias (map snd r)\<bar> \<le> max_bias
            \<and> length r < 2 ^ 25"
    then obtain h where "segment_header i j r = Inr h"
      using segment_header_packs [OF assms(2), of i j] by blast
    then show "\<exists>buffer. encode_segment i j r = Inr buffer
                  \<and> encode_records i j (r # rest) s
                      = encode_records i j rest
                          (s\<lparr>num_vertices := num_vertices s + int (length r),
                             num_segments := num_segments s + 1,
                             packed := packed s + int (length r),
                             ofp := ofp s @ buffer\<rparr>)"
      using assms(1) by (simp add: encode_segment_def Let_def)
  next
    fix x recs cs head_buf
    assume "files s (j, i) = Some recs
             \<and> encode_records i j recs (s\<lparr>num_segments := 0, num_vertices := 0\<rparr>) = Inl x"
    then show "encode_cells head_buf ((i, j) # cs) s = Inl x"
      by (simp add: encode_cell_def Let_def)
  qed
qed

text \<open>
  C6, amended, at a segment whose step along x is 200000, which exits, and at a segment
  whose steps are 10, whose block of 14 bytes is appended.
\<close>

theorem bias_range_error_witness:
  "[(2050000, 1050000), (2250000, 1050000)] \<noteq> ([] :: vertex list)
   \<and> \<bar>axis_bias (map fst [(2050000, 1050000), (2250000, 1050000 :: int)])\<bar> > max_bias
   \<and> (\<exists>s'. encode_records 10 22 [[(2050000, 1050000), (2250000, 1050000)]]
               \<lparr>files = Map.empty, ofp = [1, 2, 3], num_segments = 0, num_vertices = 0,
                packed = 0\<rparr>
           = Inl (LonBiasOutOfRange 10 22 (- 200000), s') \<and> ofp s' = [1, 2, 3])
   \<and> [(2250000, 1050000), (2250010, 1050010)] \<noteq> ([] :: vertex list)
   \<and> \<bar>axis_bias (map fst ([(2250000, 1050000), (2250010, 1050010)] :: vertex list))\<bar> \<le> max_bias
   \<and> \<bar>axis_bias (map snd ([(2250000, 1050000), (2250010, 1050010)] :: vertex list))\<bar> \<le> max_bias
   \<and> length ([(2250000, 1050000), (2250010, 1050010)] :: vertex list) < 2 ^ 25
   \<and> encode_records 10 22 [[(2250000, 1050000), (2250010, 1050010)]]
         \<lparr>files = Map.empty, ofp = [1, 2, 3], num_segments = 0, num_vertices = 0,
          packed = 0\<rparr>
       = Inr \<lparr>files = Map.empty,
              ofp = [1, 2, 3, 16, 67, 63, 254, 175, 255, 168, 68, 170, 32, 16, 5, 144, 0],
              num_segments = 1, num_vertices = 2, packed = 2\<rparr>"
proof -
  let ?r = "[(2050000, 1050000), (2250000, 1050000)] :: vertex list"
  let ?q = "[(2250000, 1050000), (2250010, 1050010)] :: vertex list"
  let ?s = "\<lparr>files = Map.empty, ofp = [1, 2, 3], num_segments = 0, num_vertices = 0,
             packed = 0\<rparr>"
  have ne: "?r \<noteq> []" by simp
  have c: "\<forall>v \<in> set ?r. 0 \<le> fst v \<and> fst v \<le> 36000000 \<and> 0 \<le> snd v \<and> snd v \<le> 18000000"
    by simp
  have b: "axis_bias (map fst ?r) = - 200000"
    by (simp add: axis_bias_def)
  have gt: "\<bar>axis_bias (map fst ?r)\<bar> > max_bias"
    by (simp add: axis_bias_def max_bias_def)
  have "\<bar>axis_bias (map fst ?r)\<bar> > max_bias \<longrightarrow>
          (\<exists>s'. encode_records 10 22 (?r # []) ?s
                   = Inl (LonBiasOutOfRange 10 22 (axis_bias (map fst ?r)), s')
                \<and> ofp s' = ofp ?s)"
    using bias_range_error [OF ne c, of 10 22 "[]" ?s] by (rule conjunct1)
  with gt have "\<exists>s'. encode_records 10 22 (?r # []) ?s
                   = Inl (LonBiasOutOfRange 10 22 (axis_bias (map fst ?r)), s')
                \<and> ofp s' = ofp ?s"
    by (rule rev_mp)
  then have 1: "\<exists>s'. encode_records 10 22 [?r] ?s = Inl (LonBiasOutOfRange 10 22 (- 200000), s')
                \<and> ofp s' = [1, 2, 3]"
    unfolding b by simp
  have nq: "?q \<noteq> []" by simp
  have cq: "\<forall>v \<in> set ?q. 0 \<le> fst v \<and> fst v \<le> 36000000 \<and> 0 \<le> snd v \<and> snd v \<le> 18000000"
    by simp
  have bq: "\<bar>axis_bias (map fst ?q)\<bar> \<le> max_bias" "\<bar>axis_bias (map snd ?q)\<bar> \<le> max_bias"
    by (simp_all add: axis_bias_def max_bias_def)
  have lq: "length ?q < 2 ^ 25" by simp
  have e: "encode_segment 10 22 ?q = Inr [16, 67, 63, 254, 175, 255, 168, 68, 170, 32, 16, 5, 144, 0]"
    by code_simp
  have "\<bar>axis_bias (map fst ?q)\<bar> \<le> max_bias \<and> \<bar>axis_bias (map snd ?q)\<bar> \<le> max_bias
            \<and> length ?q < 2 ^ 25 \<longrightarrow>
          (\<exists>buffer. encode_segment 10 22 ?q = Inr buffer
                \<and> encode_records 10 22 (?q # []) ?s
                    = encode_records 10 22 []
                        (?s\<lparr>num_vertices := num_vertices ?s + int (length ?q),
                            num_segments := num_segments ?s + 1,
                            packed := packed ?s + int (length ?q),
                            ofp := ofp ?s @ buffer\<rparr>))"
    using bias_range_error [OF nq cq, of 10 22 "[]" ?s] by blast
  then have "\<exists>buffer. encode_segment 10 22 ?q = Inr buffer
                \<and> encode_records 10 22 (?q # []) ?s
                    = encode_records 10 22 []
                        (?s\<lparr>num_vertices := num_vertices ?s + int (length ?q),
                            num_segments := num_segments ?s + 1,
                            packed := packed ?s + int (length ?q),
                            ofp := ofp ?s @ buffer\<rparr>)"
    using bq lq by blast
  then have 2: "encode_records 10 22 [?q] ?s
       = Inr \<lparr>files = Map.empty,
              ofp = [1, 2, 3, 16, 67, 63, 254, 175, 255, 168, 68, 170, 32, 16, 5, 144, 0],
              num_segments = 1, num_vertices = 2, packed = 2\<rparr>"
    unfolding e by auto
  show ?thesis
    using ne gt 1 nq bq lq 2 by blast
qed



subsection \<open>Pass 1 leaves no trivial staging file\<close>

text \<open>
  A staging file is opened only when a vertex is about to be appended to the new segment,
  and the stream is left only after that segment has been written. So every staging file in
  range has a record with a vertex when pass 1 ends.
\<close>

lemma nontrivial_append [simp]: "nontrivial (rs @ [r]) \<longleftrightarrow> nontrivial rs \<or> r \<noteq> []"
  by (auto simp: nontrivial_def)

lemma nontrivial_Nil [simp]: "\<not> nontrivial []"
  by (simp add: nontrivial_def)

lemma flush_ok:
  assumes "pending_ok fs (Some c) sg" and "r \<noteq> [] \<or> sg = []" and "fs c \<noteq> None"
  shows "files_ok (fs(c \<mapsto> (case fs c of None \<Rightarrow> [] | Some rs \<Rightarrow> rs) @ [r]))"
  using assms unfolding pending_ok_def files_ok_def
  by (auto split: option.splits)

lemma open_ok:
  assumes "files_ok fs" and "sg \<noteq> []"
  shows "pending_ok (fs(c \<mapsto> (case fs c of None \<Rightarrow> [] | Some rs \<Rightarrow> rs))) (Some c) sg"
  using assms unfolding pending_ok_def files_ok_def
  by (auto split: option.splits)

lemma files_ok_pending: "files_ok fs \<Longrightarrow> pending_ok fs f sg"
  unfolding pending_ok_def files_ok_def by blast

lemma pending_files_ok:
  "pending_ok fs f sg \<Longrightarrow> (\<forall>c. f = Some c \<longrightarrow> \<not> in_range c) \<Longrightarrow> files_ok fs"
  unfolding pending_ok_def files_ok_def by blast

lemma pending_append: "pending_ok fs f sg \<Longrightarrow> pending_ok fs f (sg @ [v])"
  unfolding pending_ok_def by blast

lemma write_record_InrD:
  assumes "write_record r s = Inr s0"
  obtains c where "fp s = Some c"
    and "s0 = s\<lparr>cells := (cells s)(c \<mapsto> (case cells s c of None \<Rightarrow> [] | Some rs \<Rightarrow> rs) @ [r])\<rparr>"
  using assms by (auto simp: write_record_def split: option.splits)

lemma write_record_files_ok:
  assumes "pending_ok (cells s) (fp s) (seg s)" and "write_record r s = Inr s0"
    and "r \<noteq> [] \<or> seg s = []" and "\<forall>c. fp s = Some c \<longrightarrow> cells s c \<noteq> None"
  shows "files_ok (cells s0) \<and> fp s0 = fp s \<and> latdeg0 s0 = latdeg0 s
       \<and> (\<forall>c. fp s0 = Some c \<longrightarrow> cells s0 c \<noteq> None)"
proof -
  obtain c where c: "fp s = Some c"
    and s0: "s0 = s\<lparr>cells := (cells s)(c \<mapsto> (case cells s c of None \<Rightarrow> [] | Some rs \<Rightarrow> rs) @ [r])\<rparr>"
    using assms(2) by (rule write_record_InrD)
  show ?thesis
    using flush_ok [of "cells s" c "seg s" r] assms(1,3,4) by (simp add: s0 c)
qed

lemma vertex_step_inv:
  assumes inv: "ingest_inv s" and step: "vertex_step rnd b x y s = Inr s'"
  shows "ingest_inv s' \<and> seg s' \<noteq> []"
proof -
  obtain lon1 lat1 londeg1 latdeg1 where n: "normalize rnd x y = (lon1, lat1, londeg1, latdeg1)"
    by (cases "normalize rnd x y") auto
  let ?c1 = "(londeg1, latdeg1)"
  let ?v = "(NINT (rnd (lon1 * 100000)), NINT (rnd (lat1 * 100000)))"
  let ?changed = "latdeg0 s > - 999 \<and> (latdeg1 \<noteq> latdeg0 s \<or> londeg1 \<noteq> londeg0 s)"
  have P: "pending_ok (cells s) (fp s) (seg s)"
    and E: "\<forall>c. fp s = Some c \<longrightarrow> cells s c \<noteq> None"
    and K: "latdeg0 s \<le> - 999 \<Longrightarrow> fp s = Some c \<Longrightarrow> \<not> in_range c" for c
    using inv by (auto simp: ingest_inv_def)
  have r1: "latdeg1 \<le> - 999 \<Longrightarrow> \<not> in_range ?c1"
    by (simp add: in_range_def)
  consider (cs) "?changed" "b" | (cn) "?changed" "\<not> b"
    | (first) "\<not> ?changed" "b" "latdeg0 s = - 999"
    | (start) "\<not> ?changed" "b" "latdeg0 s \<noteq> - 999"
    | (same) "\<not> ?changed" "\<not> b"
    by blast
  then show ?thesis
  proof cases
    case cs
    then obtain s0 where w: "write_record (seg s) s = Inr s0"
      and s': "s' = ((open_cell ?c1 s0)\<lparr>seg := []\<rparr>)\<lparr>seg := [] @ [?v], londeg0 := londeg1,
                    latdeg0 := latdeg1, lon0 := lon1, lat0 := lat1\<rparr>"
      using step unfolding vertex_step_def n
      by (auto split: sum.splits)
    have f: "files_ok (cells s0)"
      using write_record_files_ok [OF P w _ E] by blast
    show ?thesis
      using open_ok [OF f, of "[?v]" ?c1] r1
      by (simp add: s' ingest_inv_def open_cell_def)
  next
    case cn
    let ?lastv = "(NINT (rnd (lon0 s * 100000)), NINT (rnd (lat0 s * 100000)))"
    from cn obtain s0 where w: "write_record (seg s @ [?lastv]) s = Inr s0"
      and s': "s' = ((open_cell ?c1 s0)\<lparr>seg := [?lastv]\<rparr>)\<lparr>seg := [?lastv] @ [?v],
                    londeg0 := londeg1, latdeg0 := latdeg1, lon0 := lon1, lat0 := lat1\<rparr>"
      using step unfolding vertex_step_def n
      by (auto simp: Let_def split: sum.splits)
    have f: "files_ok (cells s0)"
      using write_record_files_ok [OF P w _ E] by blast
    show ?thesis
      using open_ok [OF f, of "[?lastv, ?v]" ?c1] r1
      by (simp add: s' ingest_inv_def open_cell_def)
  next
    case first
    then have s': "s' = (open_cell ?c1 s)\<lparr>seg := seg s @ [?v], londeg0 := londeg1,
                    latdeg0 := latdeg1, lon0 := lon1, lat0 := lat1\<rparr>"
      using step unfolding vertex_step_def n
      by (auto simp: open_cell_def split: if_splits)
    have f: "files_ok (cells s)"
      using pending_files_ok [OF P] K first(3) by simp
    show ?thesis
      using open_ok [OF f, of "seg s @ [?v]" ?c1] r1
      by (simp add: s' ingest_inv_def open_cell_def)
  next
    case start
    then obtain s0 where w: "write_record (seg s) s = Inr s0"
      and s': "s' = (s0\<lparr>seg := []\<rparr>)\<lparr>seg := [] @ [?v], londeg0 := londeg1,
                    latdeg0 := latdeg1, lon0 := lon1, lat0 := lat1\<rparr>"
      using step unfolding vertex_step_def n
      by (auto split: sum.splits if_splits)
    have f: "files_ok (cells s0)" and e: "fp s0 = fp s"
      and e0: "\<forall>c. fp s0 = Some c \<longrightarrow> cells s0 c \<noteq> None"
      using write_record_files_ok [OF P w _ E] by auto
    have "latdeg1 \<le> - 999 \<Longrightarrow> latdeg0 s \<le> - 999"
      using start(1) by auto
    then show ?thesis
      using files_ok_pending [OF f, of "fp s" "[?v]"] K e0
      by (simp add: s' ingest_inv_def e)
  next
    case same
    then have s': "s' = s\<lparr>seg := seg s @ [?v], londeg0 := londeg1,
                    latdeg0 := latdeg1, lon0 := lon1, lat0 := lat1\<rparr>"
      using step unfolding vertex_step_def n
      by (auto split: if_splits)
    have "latdeg1 \<le> - 999 \<Longrightarrow> latdeg0 s \<le> - 999"
      using same(1) by auto
    then show ?thesis
      using pending_append [OF P, of ?v] K E
      by (simp add: s' ingest_inv_def)
  qed
qed

lemma shape_vertices_inv:
  "ingest_inv s \<Longrightarrow> shape_vertices rnd shape js np s = Inr s' \<Longrightarrow> ingest_inv s'"
proof (induction js arbitrary: np s)
  case Nil
  then show ?case by simp
next
  case (Cons j js)
  from Cons.prems(2) obtain b s1 np1 where v: "vertex_step rnd b (padfX shape ! j) (padfY shape ! j) s = Inr s1"
    and r: "shape_vertices rnd shape js np1 s1 = Inr s'"
    by (auto simp: Let_def split: sum.splits)
  show ?case
    using Cons.IH [OF _ r] vertex_step_inv [OF Cons.prems(1) v] by blast
qed

lemma ingest_inv_total [simp]: "ingest_inv (s\<lparr>total := t\<rparr>) = ingest_inv s"
  by (simp add: ingest_inv_def)

lemma read_shape_inv:
  "ingest_inv s \<Longrightarrow> read_shape rnd shape s = Inr s' \<Longrightarrow> ingest_inv s'"
  using shape_vertices_inv [of "s\<lparr>total := total s + int (nVertices shape)\<rparr>"]
  by (auto simp: read_shape_def Let_def split: if_splits)

lemma read_shapes_inv:
  "ingest_inv s \<Longrightarrow> read_shapes rnd shapes s = Inr s' \<Longrightarrow> ingest_inv s'"
proof (induction shapes arbitrary: s)
  case Nil
  then show ?case by simp
next
  case (Cons shape shapes)
  from Cons.prems(2) obtain s1 where a: "read_shape rnd shape s = Inr s1"
    and b: "read_shapes rnd shapes s1 = Inr s'"
    by (auto split: sum.splits)
  show ?case
    using Cons.IH [OF read_shape_inv [OF Cons.prems(1) a] b] .
qed

lemma read_source_inv:
  assumes "ingest_inv s" and "files_ok (cells s)" and "read_source rnd shapes s = Inr s'"
  shows "ingest_inv s' \<and> files_ok (cells s')"
proof -
  from assms(3) obtain s1 s2 where a: "read_shapes rnd shapes (s\<lparr>seg := []\<rparr>) = Inr s1"
    and w: "write_record (seg s1) s1 = Inr s2" and s': "s' = s2\<lparr>latdeg0 := - 888\<rparr>"
    by (auto simp: read_source_def split: sum.splits)
  have "ingest_inv (s\<lparr>seg := []\<rparr>)"
    using assms(1) files_ok_pending [OF assms(2), of "fp s" "[]"] by (simp add: ingest_inv_def)
  then have i1: "ingest_inv s1"
    using a by (rule read_shapes_inv)
  then have "files_ok (cells s2) \<and> (\<forall>c. fp s2 = Some c \<longrightarrow> cells s2 c \<noteq> None)"
    using write_record_files_ok [OF _ w] by (auto simp: ingest_inv_def)
  then show ?thesis
    using files_ok_pending [of "cells s2" "fp s2" "seg s2"] by (simp add: s' ingest_inv_def)
qed

lemma read_sources_inv:
  "ingest_inv s \<Longrightarrow> files_ok (cells s) \<Longrightarrow> read_sources rnd sources s = Inr s'
     \<Longrightarrow> files_ok (cells s')"
proof (induction sources arbitrary: s)
  case Nil
  then show ?case by simp
next
  case (Cons shapes sources)
  from Cons.prems(3) obtain s1 where a: "read_source rnd shapes s = Inr s1"
    and b: "read_sources rnd sources s1 = Inr s'"
    by (auto split: sum.splits)
  show ?case
    using Cons.IH [OF _ _ b] read_source_inv [OF Cons.prems(1,2) a] by blast
qed

lemma pass1_files_ok:
  assumes "pass1 rnd fs sources = Inr st"
  shows "files_ok st"
proof -
  from assms obtain s where a: "read_sources rnd sources (ingest_init fs) = Inr s" and st: "st = cells s"
    by (auto simp: pass1_def split: sum.splits option.splits)
  have f: "files_ok (cells (ingest_init fs))"
    by (auto simp: files_ok_def ingest_init_def remove_cells_def in_range_def)
  have "ingest_inv (ingest_init fs)"
    using files_ok_pending [OF f] by (simp add: ingest_inv_def) (simp add: ingest_init_def)
  then show ?thesis
    using read_sources_inv [OF _ f a] by (simp add: st)
qed

subsection \<open>The header of the output file\<close>

lemma field_bits_zero: "field_bits n 0 = replicate n False"
  by (induction n) (simp_all add: replicate_append_same)

lemma bits_bytes_zero: "bits_bytes n (replicate (8 * n) False) = replicate n 0"
proof (induction n)
  case 0
  show ?case by simp
next
  case (Suc n)
  have "bits_value (replicate 8 False) = 0"
    by (simp add: bits_value_def eval_nat_numeral)
  then show ?case
    using Suc by (simp add: min_def flip: replicate_add)
qed

lemma pack_head_bits:
  assumes "length head_buf = 12"
  shows "buffer_bits (pack_head head_buf a n v)
           = field_bits 32 a @ field_bits 32 n @ field_bits 32 v"
    and "length (pack_head head_buf a n v) = 12"
proof -
  let ?B = "buffer_bits head_buf"
  let ?b1 = "bit_pack head_buf 0 32 a"
  let ?b2 = "bit_pack ?b1 32 32 n"
  have l: "length ?B = 96" using assms by simp
  have 1: "buffer_bits ?b1 = field_bits 32 a @ drop 32 ?B"
    using assms by (simp add: buffer_bits_bit_pack)
  have 2: "buffer_bits ?b2 = field_bits 32 a @ field_bits 32 n @ drop 64 ?B"
    using assms by (simp add: buffer_bits_bit_pack 1)
  have 3: "buffer_bits (bit_pack ?b2 64 32 v)
      = field_bits 32 a @ field_bits 32 n @ field_bits 32 v"
    using assms l by (simp add: buffer_bits_bit_pack 2)
  show "buffer_bits (pack_head head_buf a n v)
           = field_bits 32 a @ field_bits 32 n @ field_bits 32 v"
    using 3 by (simp add: pack_head_def Let_def)
  show "length (pack_head head_buf a n v) = 12"
    using assms by (simp add: pack_head_def Let_def)
qed

lemma pack_head_zero:
  assumes "length head_buf = 12"
  shows "pack_head head_buf 0 0 0 = replicate 12 0"
proof -
  let ?b2 = "bit_pack (bit_pack head_buf 0 32 0) 32 32 0"
  have "buffer_bits (bit_pack ?b2 64 32 0) = replicate 96 False"
    using pack_head_bits(1) [OF assms, of 0 0 0]
    by (simp add: pack_head_def Let_def field_bits_zero flip: replicate_add)
  moreover have "length ?b2 = 12" using assms by simp
  moreover have "bit_pack ?b2 64 32 0
      = bits_bytes 12 (take 64 (buffer_bits ?b2) @ field_bits 32 0 @ drop 96 (buffer_bits ?b2))"
    using assms by (simp add: bit_pack_def Let_def)
  moreover have "buffer_bits (bit_pack ?b2 64 32 0)
      = take 64 (buffer_bits ?b2) @ field_bits 32 0 @ drop 96 (buffer_bits ?b2)"
    using assms by (simp add: buffer_bits_bit_pack)
  ultimately have "bit_pack ?b2 64 32 0 = bits_bytes 12 (replicate (8 * 12) False)"
    by simp
  then show ?thesis
    by (simp only: pack_head_def Let_def bits_bytes_zero)
qed

lemma bit_unpack_head:
  assumes "length head_buf = 12"
  shows "bit_unpack (pack_head head_buf a n v) 0 32 = a mod 2 ^ 32"
    and "bit_unpack (pack_head head_buf a n v) 32 32 = n mod 2 ^ 32"
    and "bit_unpack (pack_head head_buf a n v) 64 32 = v mod 2 ^ 32"
  by (simp_all add: bit_unpack_def pack_head_bits(1) [OF assms] bits_value_field_bits)

lemma bit_unpack_zero: "bit_unpack (replicate 12 0) pos 32 = 0"
proof -
  have "bits_value (replicate n False) = 0" for n
    by (induction n) (simp_all add: bits_value_snoc flip: replicate_append_same)
  then show ?thesis
    by (simp add: bit_unpack_def buffer_bits_zero)
qed

lemma length_version_block: "length version_block = 128"
  by (simp add: version_block_def Let_def)

lemma head_offset_int: "head_offset (int i) (int j) = 128 + 12 * (360 * i + j)"
proof -
  have "(int i * 360 + int j) * 12 + 128 = int (128 + 12 * (360 * i + j))" by simp
  then show ?thesis unfolding head_offset_def by (simp only: nat_int)
qed

lemma head_offset_in_range:
  assumes "in_range (j, i)"
  shows "head_offset i j = 128 + 12 * (360 * nat i + nat j)"
    and "head_offset i j + 12 \<le> 777728" and "128 \<le> head_offset i j"
proof -
  have "i = int (nat i)" "j = int (nat j)" "nat i < 180" "nat j < 360"
    using assms by (auto simp: in_range_def)
  then show "head_offset i j = 128 + 12 * (360 * nat i + nat j)"
    using head_offset_int [of "nat i" "nat j"] by simp
  then show "head_offset i j + 12 \<le> 777728" "128 \<le> head_offset i j"
    using \<open>nat i < 180\<close> \<open>nat j < 360\<close> by simp_all
qed

lemma head_offset_apart:
  assumes "in_range (j, i)" and "in_range (j', i')" and "(i', j') \<noteq> (i, j)"
  shows "head_offset i' j' + 12 \<le> head_offset i j \<or> head_offset i j + 12 \<le> head_offset i' j'"
proof -
  have d: "nat i \<noteq> nat i' \<or> nat j \<noteq> nat j'" and b: "nat j < 360" "nat j' < 360"
    using assms by (auto simp: in_range_def)
  have u: "360 * a + b \<noteq> 360 * a' + b'"
    if h: "a \<noteq> a' \<or> b \<noteq> b'" "b < 360" "b' < 360" for a b a' b' :: nat
  proof
    assume e: "360 * a + b = 360 * a' + b'"
    have "(360 * a + b) div 360 = (360 * a' + b') div 360" using e by simp
    then have "a = a'" using h(2,3) by simp
    with e h show False by simp
  qed
  have w: "128 + 12 * k' + 12 \<le> 128 + 12 * k \<or> 128 + 12 * k + 12 \<le> 128 + 12 * k'"
    if "k \<noteq> k'" for k k' :: nat
    using that by linarith
  show ?thesis
    unfolding head_offset_in_range(1) [OF assms(1)] head_offset_in_range(1) [OF assms(2)]
    by (rule w [OF u [OF d b]])
qed

lemma fwrite_at_end: "pos = length file \<Longrightarrow> fwrite_at file pos bytes = file @ bytes"
  by (simp add: fwrite_at_def)

lemma fwrite_at_inside:
  assumes "pos + length bytes \<le> length file"
  shows "length (fwrite_at file pos bytes) = length file"
    and "take (length bytes) (drop pos (fwrite_at file pos bytes)) = bytes"
    and "p + n \<le> pos \<Longrightarrow> take n (drop p (fwrite_at file pos bytes)) = take n (drop p file)"
    and "pos + length bytes \<le> p \<Longrightarrow> drop p (fwrite_at file pos bytes) = drop p file"
proof -
  have f: "fwrite_at file pos bytes = take pos file @ bytes @ drop (pos + length bytes) file"
    using assms by (simp add: fwrite_at_def)
  show "length (fwrite_at file pos bytes) = length file"
    using assms by (simp add: f)
  show "take (length bytes) (drop pos (fwrite_at file pos bytes)) = bytes"
    using assms by (simp add: f)
  show "take n (drop p (fwrite_at file pos bytes)) = take n (drop p file)" if "p + n \<le> pos"
  proof -
    have "take n (drop p (take pos file)) = take n (drop p file)"
      using that by (simp add: drop_take min_def)
    then show ?thesis
      using that assms by (simp add: f)
  qed
  show "drop p (fwrite_at file pos bytes) = drop p file" if "pos + length bytes \<le> p"
    using that assms by (simp add: f)
qed

text \<open>The header area after its initialisation: the version block and zeros.\<close>

lemma init_row:
  assumes "length file = 128 + 4320 * i"
  shows "fold (\<lambda>c ofp. fwrite_at ofp (head_offset (fst c) (snd c)) (replicate 12 0))
           (map (\<lambda>j. (int i, int j)) [0..<n]) file
         = file @ replicate (12 * n) 0"
proof (induction n)
  case 0
  show ?case by simp
next
  case (Suc n)
  have "head_offset (int i) (int n) = length (file @ replicate (12 * n) 0)"
    using assms by (simp add: head_offset_int)
  then show ?case
    using Suc by (simp add: fwrite_at_end flip: replicate_add)
qed

lemma init_rows:
  "fold (\<lambda>c ofp. fwrite_at ofp (head_offset (fst c) (snd c)) (replicate 12 0))
     (concat (map (\<lambda>i. map (\<lambda>j. (int i, int j)) [0..<360]) [0..<m])) version_block
   = version_block @ replicate (4320 * m) 0"
proof (induction m)
  case 0
  show ?case by simp
next
  case (Suc m)
  have "length (version_block @ replicate (4320 * m) 0) = 128 + 4320 * m"
    by (simp add: length_version_block)
  then show ?case
    using Suc by (simp add: init_row flip: replicate_add)
qed

lemma init_header_eq:
  assumes "length head_buf = 12"
  shows "init_header head_buf = version_block @ replicate 777600 0"
proof -
  have "(\<lambda>(i, j) ofp. fwrite_at ofp (head_offset i j) (replicate 12 0))
      = (\<lambda>c ofp. fwrite_at ofp (head_offset (fst c) (snd c)) (replicate 12 0))"
    by (simp add: fun_eq_iff)
  then show ?thesis
    using init_rows [of 180]
    by (simp add: init_header_def pack_head_zero [OF assms] cell_order_def)
qed

lemma length_init_header:
  assumes "length head_buf = 12"
  shows "length (init_header head_buf) = 777728"
  by (simp add: init_header_eq [OF assms] length_version_block)

lemma head_entry_init:
  assumes "length head_buf = 12" and r: "in_range (j, i)"
  shows "head_entry (init_header head_buf) i j = (0, 0, 0)"
proof -
  have "take 12 (drop (head_offset i j) (version_block @ replicate 777600 0)) = replicate 12 0"
    using head_offset_in_range(2,3) [OF r] by (simp add: length_version_block min_def)
  then show ?thesis
    by (simp add: head_entry_def init_header_eq [OF assms(1)] bit_unpack_zero)
qed

lemma head_entry_append:
  assumes "777728 \<le> length file" and "in_range (j, i)"
  shows "head_entry (file @ bytes) i j = head_entry file i j"
  using head_offset_in_range(2) [OF assms(2)] assms(1) by (simp add: head_entry_def)

lemma head_entry_other:
  assumes hb: "length head_buf = 12" and r: "in_range (j, i)" and r': "in_range (j', i')"
    and d: "(i', j') \<noteq> (i, j)" and l: "777728 \<le> length file"
  shows "head_entry (fwrite_at file (head_offset i j) (pack_head head_buf a n v)) i' j'
           = head_entry file i' j'"
proof -
  let ?P = "pack_head head_buf a n v"
  let ?f = "fwrite_at file (head_offset i j) ?P"
  have lp: "length ?P = 12" by (rule pack_head_bits(2) [OF hb])
  have fit: "head_offset i j + length ?P \<le> length file"
    using head_offset_in_range(2) [OF r] l by (simp add: lp)
  note F = fwrite_at_inside [OF fit]
  have "take 12 (drop (head_offset i' j') ?f) = take 12 (drop (head_offset i' j') file)"
    using head_offset_apart [OF r r' d] F(3) [of "head_offset i' j'" 12] F(4) [of "head_offset i' j'"]
    by (auto simp: lp)
  then show ?thesis
    by (simp add: head_entry_def)
qed

lemma head_entry_same:
  assumes hb: "length head_buf = 12" and r: "in_range (j, i)" and l: "777728 \<le> length file"
  shows "head_entry (fwrite_at file (head_offset i j) (pack_head head_buf a n v)) i j
           = (a mod 2 ^ 32, n mod 2 ^ 32, v mod 2 ^ 32)"
proof -
  let ?P = "pack_head head_buf a n v"
  have lp: "length ?P = 12" by (rule pack_head_bits(2) [OF hb])
  have fit: "head_offset i j + length ?P \<le> length file"
    using head_offset_in_range(2) [OF r] l by (simp add: lp)
  have "take 12 (drop (head_offset i j) (fwrite_at file (head_offset i j) ?P)) = ?P"
    using fwrite_at_inside(2) [OF fit] by (simp add: lp)
  then show ?thesis
    by (simp add: head_entry_def bit_unpack_head [OF hb] Let_def)
qed

subsection \<open>Pass 2 ties every entry to its cell\<close>

lemma encode_records_Inr:
  "encode_records i j recs s = Inr s' \<Longrightarrow>
     (\<exists>bytes. ofp s' = ofp s @ bytes) \<and> files s' = files s
     \<and> num_segments s' = num_segments s + int (length (filter (\<lambda>r. r \<noteq> []) recs))
     \<and> packed s + int (length (filter (\<lambda>r. r \<noteq> []) recs)) \<le> packed s'"
proof (induction recs arbitrary: s)
  case Nil
  then show ?case by simp
next
  case (Cons r recs)
  show ?case
  proof (cases "r = []")
    case True
    then show ?thesis using Cons by simp
  next
    case False
    then obtain buffer where e: "encode_segment i j r = Inr buffer"
      and n: "encode_records i j recs
                (s\<lparr>num_vertices := num_vertices s + int (length r),
                   num_segments := num_segments s + 1,
                   packed := packed s + int (length r), ofp := ofp s @ buffer\<rparr>) = Inr s'"
      using Cons.prems by (auto simp: Let_def split: sum.splits)
    have "1 \<le> int (length r)" using False by (cases r) simp_all
    then show ?thesis
      using Cons.IH [OF n] False by auto
  qed
qed

lemma encode_records_Inl:
  "encode_records i j recs s = Inl (e, s') \<Longrightarrow>
     (\<exists>bytes. ofp s' = ofp s @ bytes) \<and> packed s \<le> packed s'"
proof (induction recs arbitrary: s)
  case Nil
  then show ?case by simp
next
  case (Cons r recs)
  show ?case
  proof (cases "r = []")
    case True
    then show ?thesis using Cons by simp
  next
    case False
    let ?s1 = "s\<lparr>num_vertices := num_vertices s + int (length r),
                   num_segments := num_segments s + 1,
                   packed := packed s + int (length r)\<rparr>"
    show ?thesis
    proof (cases "encode_segment i j r")
      case (Inl x)
      then have "s' = ?s1" using Cons.prems False by (simp add: Let_def)
      then show ?thesis by simp
    next
      case (Inr buffer)
      then have "encode_records i j recs (?s1\<lparr>ofp := ofp s @ buffer\<rparr>) = Inl (e, s')"
        using Cons.prems False by (simp add: Let_def)
      from Cons.IH [OF this] show ?thesis by auto
    qed
  qed
qed

lemma file_counts:
  "0 \<le> file_segments recs" "file_segments recs \<le> file_vertices recs"
proof -
  show "0 \<le> file_segments recs" by (simp add: file_segments_def)
  have "length (filter (\<lambda>r. r \<noteq> []) recs) \<le> sum_list (map length recs)"
  proof (induction recs)
    case Nil
    show ?case by simp
  next
    case (Cons r recs)
    then show ?case by (cases r) simp_all
  qed
  then show "file_segments recs \<le> file_vertices recs"
    by (simp add: file_segments_def file_vertices_def)
qed

lemma file_segments_pos: "nontrivial recs \<Longrightarrow> 0 < file_segments recs"
  by (auto simp: nontrivial_def file_segments_def filter_empty_conv)

lemma encode_records_counts:
  "encode_records i j recs s = Inr s' \<Longrightarrow>
     num_segments s' = num_segments s + file_segments recs
     \<and> num_vertices s' = num_vertices s + file_vertices recs
     \<and> packed s' = packed s + file_vertices recs"
proof (induction recs arbitrary: s)
  case Nil
  then show ?case by (simp add: file_segments_def file_vertices_def)
next
  case (Cons r recs)
  show ?case
  proof (cases "r = []")
    case True
    then show ?thesis using Cons by (simp add: file_segments_def file_vertices_def)
  next
    case False
    then obtain buffer where e: "encode_segment i j r = Inr buffer"
      and n: "encode_records i j recs
                (s\<lparr>num_vertices := num_vertices s + int (length r),
                   num_segments := num_segments s + 1,
                   packed := packed s + int (length r), ofp := ofp s @ buffer\<rparr>) = Inr s'"
      using Cons.prems by (auto simp: Let_def split: sum.splits)
    show ?thesis
      using Cons.IH [OF n] False by (simp add: file_segments_def file_vertices_def)
  qed
qed

lemma encode_records_Inl_files:
  "encode_records i j recs s = Inl (e, s') \<Longrightarrow> files s' = files s"
proof (induction recs arbitrary: s)
  case Nil
  then show ?case by simp
next
  case (Cons r recs)
  show ?case
  proof (cases "r = []")
    case True
    then show ?thesis using Cons by simp
  next
    case False
    let ?s1 = "s\<lparr>num_vertices := num_vertices s + int (length r),
                   num_segments := num_segments s + 1,
                   packed := packed s + int (length r)\<rparr>"
    show ?thesis
    proof (cases "encode_segment i j r")
      case (Inl x)
      then have "s' = ?s1" using Cons.prems False by (simp add: Let_def)
      then show ?thesis by simp
    next
      case (Inr buffer)
      then have "encode_records i j recs (?s1\<lparr>ofp := ofp s @ buffer\<rparr>) = Inl (e, s')"
        using Cons.prems False by (simp add: Let_def)
      from Cons.IH [OF this] show ?thesis by simp
    qed
  qed
qed

lemma tied_init:
  assumes "length head_buf = 12"
  shows "tied st \<lparr>files = st, ofp = init_header head_buf, num_segments = 0, num_vertices = 0,
                  packed = 0\<rparr>"
  using length_init_header [OF assms] head_entry_init [OF assms]
  by (auto simp: tied_def cell_tied_def split: option.splits)

lemma cell_tied_mono:
  assumes "cell_tied st s i j" and "files s' (j, i) = files s (j, i)"
    and "head_entry (ofp s') i j = head_entry (ofp s) i j"
    and "packed s \<le> packed s'" and "length (ofp s) \<le> length (ofp s')"
  shows "cell_tied st s' i j"
proof (cases "files s (j, i)")
  case (Some recs)
  then show ?thesis using assms by (simp add: cell_tied_def)
next
  case None
  show ?thesis
  proof (cases "st (j, i)")
    case n: None
    then show ?thesis using assms None by (simp add: cell_tied_def)
  next
    case (Some recs)
    then obtain a where a: "777728 \<le> a" "a \<le> int (length (ofp s))"
      "head_entry (ofp s) i j
         = (a mod 2 ^ 32, file_segments recs mod 2 ^ 32, file_vertices recs mod 2 ^ 32)"
      and v: "file_vertices recs \<le> packed s"
      using assms(1) None by (auto simp: cell_tied_def)
    have "a \<le> int (length (ofp s'))" using a(2) assms(5) by simp
    then show ?thesis
      using a(1,3) v assms(2-4) None Some by (auto simp: cell_tied_def)
  qed
qed

lemma tied_cell:
  assumes t: "tied st s" and hb: "length head_buf = 12" and r: "in_range (j, i)"
    and c: "encode_cell head_buf i j s = Inl (e, s') \<or> encode_cell head_buf i j s = Inr s'"
  shows "tied st s'"
proof -
  let ?s0 = "s\<lparr>num_segments := 0, num_vertices := 0\<rparr>"
  have l: "777728 \<le> length (ofp s)" and p: "0 \<le> packed s"
    and ct: "\<And>i j. in_range (j, i) \<Longrightarrow> cell_tied st s i j"
    using t by (simp_all add: tied_def)
  show ?thesis
  proof (cases "files s (j, i)")
    case None
    then have s0: "s' = ?s0" using c by (simp add: encode_cell_def)
    have "cell_tied st s' i' j'" if r': "in_range (j', i')" for i' j'
      using cell_tied_mono [OF ct [OF r'], of s'] by (simp add: s0)
    then show ?thesis
      using l p by (simp add: tied_def s0)
  next
    case (Some recs)
    have st: "st (j, i) = Some recs"
      using ct [OF r] Some by (simp add: cell_tied_def)
    show ?thesis
    proof (cases "encode_records i j recs ?s0")
      case (Inl x)
      then have x: "encode_records i j recs ?s0 = Inl (e, s')"
        using c Some by (simp add: encode_cell_def Let_def)
      obtain bytes where o: "ofp s' = ofp s @ bytes" and pk: "packed s \<le> packed s'"
        using encode_records_Inl [OF x] by auto
      have f: "files s' = files s" using encode_records_Inl_files [OF x] by simp
      have "cell_tied st s' i' j'" if r': "in_range (j', i')" for i' j'
        using cell_tied_mono [OF ct [OF r'], of s'] head_entry_append [OF l r'] pk
        by (simp add: o f)
      then show ?thesis
        using l p pk by (simp add: tied_def o)
    next
      case (Inr s1)
      then have s': "s' = s1\<lparr>files := (files s1)((j, i) := None),
                       ofp := fwrite_at (ofp s1) (head_offset i j)
                                (pack_head head_buf (int (length (ofp s))) (num_segments s1)
                                   (num_vertices s1))\<rparr>"
        using c Some by (simp add: encode_cell_def Let_def)
      obtain bytes where o: "ofp s1 = ofp s @ bytes" and f: "files s1 = files s"
        using encode_records_Inr [OF Inr] by auto
      have n: "num_segments s1 = file_segments recs" "num_vertices s1 = file_vertices recs"
        "packed s1 = packed s + file_vertices recs"
        using encode_records_counts [OF Inr] by simp_all
      have l1: "777728 \<le> length (ofp s1)" using l by (simp add: o)
      let ?P = "pack_head head_buf (int (length (ofp s))) (num_segments s1) (num_vertices s1)"
      have fit: "head_offset i j + length ?P \<le> length (ofp s1)"
        using head_offset_in_range(2) [OF r] l1 by (simp add: pack_head_bits(2) [OF hb])
      have ln: "length (ofp s') = length (ofp s1)"
        using fwrite_at_inside(1) [OF fit] by (simp add: s')
      have v0: "0 \<le> file_vertices recs"
        using file_counts [of recs] by simp
      have "cell_tied st s' i' j'" if r': "in_range (j', i')" for i' j'
      proof (cases "(i', j') = (i, j)")
        case True
        have "head_entry (ofp s') i j
            = (int (length (ofp s)) mod 2 ^ 32, file_segments recs mod 2 ^ 32,
               file_vertices recs mod 2 ^ 32)"
          using head_entry_same [OF hb r l1] by (simp add: s' n)
        moreover have "777728 \<le> int (length (ofp s))" "int (length (ofp s)) \<le> int (length (ofp s'))"
          using l by (simp_all add: ln o)
        ultimately have "\<exists>a. 777728 \<le> a \<and> a \<le> int (length (ofp s'))
            \<and> head_entry (ofp s') i j
                = (a mod 2 ^ 32, file_segments recs mod 2 ^ 32, file_vertices recs mod 2 ^ 32)"
          by (intro exI [of _ "int (length (ofp s))"]) simp
        moreover have "file_vertices recs \<le> packed s'"
          using p by (simp add: s' n)
        moreover have "files s' (j, i) = None" by (simp add: s')
        ultimately show ?thesis
          using True st by (simp add: cell_tied_def)
      next
        case False
        have "head_entry (ofp s') i' j' = head_entry (ofp s1) i' j'"
          using head_entry_other [OF hb r r' False l1] by (simp add: s')
        also have "\<dots> = head_entry (ofp s) i' j'"
          using head_entry_append [OF l r'] by (simp add: o)
        finally have h: "head_entry (ofp s') i' j' = head_entry (ofp s) i' j'" .
        have "files s' (j', i') = files s (j', i')"
          using False by (auto simp: s' f)
        moreover have "packed s \<le> packed s'" using v0 by (simp add: s' n)
        moreover have "length (ofp s) \<le> length (ofp s')" by (simp add: ln o)
        ultimately show ?thesis
          using cell_tied_mono [OF ct [OF r'] _ h] by simp
      qed
      moreover have "0 \<le> packed s'" using p v0 by (simp add: s' n)
      ultimately show ?thesis
        using l1 by (simp add: tied_def ln)
    qed
  qed
qed

lemma tied_cells:
  assumes "\<forall>(i, j) \<in> set cs. in_range (j, i)" and "length head_buf = 12" and "tied st s"
    and "encode_cells head_buf cs s = Inl (e, s') \<or> encode_cells head_buf cs s = Inr s'"
  shows "tied st s'"
  using assms
proof (induction cs arbitrary: s)
  case Nil
  then show ?case by simp
next
  case (Cons c cs)
  obtain i j where c: "c = (i, j)" by (cases c)
  have r: "in_range (j, i)" and rs: "\<forall>(i, j) \<in> set cs. in_range (j, i)"
    using Cons.prems(1) by (simp_all add: c)
  show ?case
  proof (cases "encode_cell head_buf i j s")
    case (Inl x)
    then have "encode_cell head_buf i j s = Inl (e, s')"
      using Cons.prems(4) by (simp add: c)
    then show ?thesis
      using tied_cell [OF Cons.prems(3,2) r] by blast
  next
    case (Inr s1)
    have t1: "tied st s1"
      using tied_cell [OF Cons.prems(3,2) r] Inr by blast
    have "encode_cells head_buf cs s1 = Inl (e, s') \<or> encode_cells head_buf cs s1 = Inr s'"
      using Cons.prems(4) Inr by (simp add: c)
    then show ?thesis
      using Cons.IH [OF rs Cons.prems(2) t1] by simp
  qed
qed

lemma encode_cell_files:
  "encode_cell head_buf i j s = Inr s' \<Longrightarrow> files s' = (files s)((j, i) := None)"
proof (cases "files s (j, i)")
  case None
  assume "encode_cell head_buf i j s = Inr s'"
  then have "s' = s\<lparr>num_segments := 0, num_vertices := 0\<rparr>"
    using None by (simp add: encode_cell_def)
  then show ?thesis using None by (auto simp: fun_eq_iff)
next
  case (Some recs)
  assume "encode_cell head_buf i j s = Inr s'"
  then obtain s1 where e: "encode_records i j recs (s\<lparr>num_segments := 0, num_vertices := 0\<rparr>) = Inr s1"
    and s': "files s' = (files s1)((j, i) := None)"
    using Some by (auto simp: encode_cell_def Let_def split: sum.splits)
  show ?thesis
    using encode_records_Inr [OF e] by (simp add: s')
qed

lemma encode_cells_consumed:
  "encode_cells head_buf cs s = Inr s' \<Longrightarrow>
     (\<forall>c. files s c = None \<longrightarrow> files s' c = None)
     \<and> (\<forall>(i, j) \<in> set cs. files s' (j, i) = None)"
proof (induction cs arbitrary: s)
  case Nil
  then show ?case by simp
next
  case (Cons c cs)
  obtain i j where c: "c = (i, j)" by (cases c)
  from Cons.prems obtain s1 where a: "encode_cell head_buf i j s = Inr s1"
    and b: "encode_cells head_buf cs s1 = Inr s'"
    by (auto simp: c split: sum.splits)
  have f: "files s1 = (files s)((j, i) := None)" by (rule encode_cell_files [OF a])
  show ?case
    using Cons.IH [OF b] by (auto simp: c f)
qed


lemma cell_order_mem: "i < 180 \<Longrightarrow> j < 360 \<Longrightarrow> (int i, int j) \<in> set cell_order"
  unfolding cell_order_def by (simp, intro bexI [of _ i]) simp_all

lemma cell_order_in_range: "\<forall>(i, j) \<in> set cell_order. in_range (j, i)"
  by (auto simp: cell_order_def in_range_def)

text \<open>The offsets of the entries, in the order of the loops.\<close>

lemma rows_offsets:
  assumes "\<And>i j. f (int i, int j) = g (n * i + j)"
  shows "map f (concat (map (\<lambda>i. map (\<lambda>j. (int i, int j)) [0..<n]) [0..<m]))
           = map g [0..<n * m]"
proof (induction m)
  case 0
  show ?case by simp
next
  case (Suc m)
  have e: "n * Suc m = n * m + n" by simp
  have a: "[0..<n * m + n] = [0..<n * m] @ [n * m..<n * m + n]"
    by (rule upt_add_eq_append) simp
  have b: "[n * m..<n * m + n] = map (\<lambda>j. j + n * m) [0..<n]"
    using map_add_upt [of "n * m" n] by (simp only: add.commute)
  have c: "map g [0..<n * Suc m] = map g [0..<n * m] @ map (\<lambda>j. g (n * m + j)) [0..<n]"
    unfolding e a b by (simp only: map_append map_map o_def add.commute)
  have d: "map f (map (\<lambda>j. (int m, int j)) [0..<n]) = map (\<lambda>j. g (n * m + j)) [0..<n]"
    by (simp only: map_map o_def assms)
  have "map f (concat (map (\<lambda>i. map (\<lambda>j. (int i, int j)) [0..<n]) [0..<Suc m]))
      = map f (concat (map (\<lambda>i. map (\<lambda>j. (int i, int j)) [0..<n]) [0..<m]))
          @ map f (map (\<lambda>j. (int m, int j)) [0..<n])"
    by simp
  then show ?case
    unfolding c d Suc .
qed

lemma head_offsets_cell_order:
  "map (\<lambda>(i, j). head_offset i j) cell_order = map (\<lambda>k. 128 + 12 * k) [0..<64800]"
proof -
  have h: "(case (int i, int j) of (i, j) \<Rightarrow> head_offset i j) = 128 + 12 * (360 * i + j)" for i j
    by (simp add: head_offset_int)
  have e: "(360 :: nat) * 180 = 64800" by simp
  show ?thesis
    unfolding cell_order_def
    using rows_offsets [of "\<lambda>(i, j). head_offset i j" "\<lambda>k. 128 + 12 * k" 360 180, OF h]
    unfolding e .
qed

lemma slot_entry_head:
  "head_entry file (int i) (int j) = slot_entry file (360 * i + j)"
  by (simp add: head_entry_def slot_entry_def head_offset_int)

text \<open>
  C8. Whenever a run has an output file (the run has reached pass 2, finished or not), and
  the 32-bit counter \<open>total\<close> of pass 2 and the file positions have not overflowed: the
  file holds the whole header area of 128 + 64800 x 12 bytes; the entries, in the order
  latitude index then longitude index, are at the offsets 128 + 12 k for k = 0, ..., 64799;
  and every entry whose number of segments is 0 has address 0 and vertex count 0. Entry
  number \<open>360 i + j\<close> is the entry of the cell of latitude index \<open>i\<close> and longitude index
  \<open>j\<close>: it is zero when pass 1 left no staging file for that cell, or when the run has
  ended before the file was consumed; otherwise it holds an address after the header area,
  the number of segments of that file (at least one) and the number of their vertices. At
  the end of a finished run every staging file in range is consumed.
\<close>

theorem header_density:
  assumes "length head_buf = 12"
    and "final_state (build_coast rnd head_buf fs sources) = Some s"
    and "packed s < 2 ^ 31" and "length (ofp s) < 2 ^ 31"
  shows "128 + 64800 * 12 \<le> length (ofp s)
       \<and> map (\<lambda>(i, j). head_offset i j) cell_order = map (\<lambda>k. 128 + 12 * k) [0..<64800]
       \<and> (\<forall>k < 64800. case slot_entry (ofp s) k of
                          (address, nseg, nvert) \<Rightarrow> nseg = 0 \<longrightarrow> address = 0 \<and> nvert = 0)
       \<and> (\<exists>st. pass1 rnd fs sources = Inr st
             \<and> (\<forall>i < 180. \<forall>j < 360.
                   head_entry (ofp s) (int i) (int j) = slot_entry (ofp s) (360 * i + j)
                   \<and> (case st (int j, int i) of
                        None \<Rightarrow> slot_entry (ofp s) (360 * i + j) = (0, 0, 0)
                      | Some recs \<Rightarrow>
                          if files s (int j, int i) = None
                          then 0 < file_segments recs
                               \<and> (\<exists>a. 777728 \<le> a \<and> a \<le> int (length (ofp s))
                                      \<and> slot_entry (ofp s) (360 * i + j)
                                          = (a, file_segments recs, file_vertices recs))
                          else slot_entry (ofp s) (360 * i + j) = (0, 0, 0))))
       \<and> (build_coast rnd head_buf fs sources = Finished s \<longrightarrow>
            (\<forall>i < 180. \<forall>j < 360. files s (int j, int i) = None))"
proof -
  from assms(2) obtain st e where p1: "pass1 rnd fs sources = Inr st"
    and p2: "pass2 head_buf st = Inl (e, s) \<or> pass2 head_buf st = Inr s"
    by (auto simp: build_coast_def split: sum.splits prod.splits)
  have fo: "files_ok st" by (rule pass1_files_ok [OF p1])
  have t: "tied st s"
    using tied_cells [OF cell_order_in_range assms(1) tied_init [OF assms(1), of st], of e s] p2
    by (simp add: pass2_def)
  have l: "777728 \<le> length (ofp s)" using t by (simp add: tied_def)
  have cell: "case st (int j, int i) of
                None \<Rightarrow> slot_entry (ofp s) (360 * i + j) = (0, 0, 0)
              | Some recs \<Rightarrow>
                  if files s (int j, int i) = None
                  then 0 < file_segments recs
                       \<and> (\<exists>a. 777728 \<le> a \<and> a \<le> int (length (ofp s))
                              \<and> slot_entry (ofp s) (360 * i + j)
                                  = (a, file_segments recs, file_vertices recs))
                  else slot_entry (ofp s) (360 * i + j) = (0, 0, 0)"
    if ij: "i < 180" "j < 360" for i j
  proof -
    have r: "in_range (int j, int i)" using ij by (simp add: in_range_def)
    have ct: "cell_tied st s (int i) (int j)" using t r by (simp add: tied_def)
    note e = slot_entry_head [of "ofp s" i j]
    show ?thesis
    proof (cases "st (int j, int i)")
      case None
      then show ?thesis
        using ct e by (auto simp: cell_tied_def split: option.splits)
    next
      case (Some recs)
      show ?thesis
      proof (cases "files s (int j, int i)")
        case n: None
        obtain a where a: "777728 \<le> a" "a \<le> int (length (ofp s))"
          "head_entry (ofp s) (int i) (int j)
             = (a mod 2 ^ 32, file_segments recs mod 2 ^ 32, file_vertices recs mod 2 ^ 32)"
          and v: "file_vertices recs \<le> packed s"
          using ct n Some by (auto simp: cell_tied_def)
        have pos: "0 < file_segments recs"
          using fo r Some by (simp add: files_ok_def file_segments_pos)
        have "a mod 2 ^ 32 = a" "file_segments recs mod 2 ^ 32 = file_segments recs"
          "file_vertices recs mod 2 ^ 32 = file_vertices recs"
          using a assms(3,4) v file_counts [of recs] by simp_all
        then have "slot_entry (ofp s) (360 * i + j) = (a, file_segments recs, file_vertices recs)"
          using a(3) e by simp
        then show ?thesis
          using a(1,2) pos n Some by auto
      next
        case s2: (Some recs')
        then show ?thesis
          using ct e Some by (simp add: cell_tied_def)
      qed
    qed
  qed
  have 1: "128 + 64800 * 12 \<le> length (ofp s)" using l by simp
  have 3: "\<forall>k < 64800. case slot_entry (ofp s) k of
                          (address, nseg, nvert) \<Rightarrow> nseg = 0 \<longrightarrow> address = 0 \<and> nvert = 0"
  proof (intro allI impI)
    fix k :: nat
    assume k: "k < 64800"
    have ij: "k div 360 < 180" "k mod 360 < 360" and e: "360 * (k div 360) + k mod 360 = k"
      using k by simp_all
    show "case slot_entry (ofp s) k of
            (address, nseg, nvert) \<Rightarrow> nseg = 0 \<longrightarrow> address = 0 \<and> nvert = 0"
      using cell [OF ij] unfolding e
      by (auto split: option.splits if_splits)
  qed
  have 4: "\<forall>i < 180. \<forall>j < 360.
             head_entry (ofp s) (int i) (int j) = slot_entry (ofp s) (360 * i + j)
             \<and> (case st (int j, int i) of
                  None \<Rightarrow> slot_entry (ofp s) (360 * i + j) = (0, 0, 0)
                | Some recs \<Rightarrow>
                    if files s (int j, int i) = None
                    then 0 < file_segments recs
                         \<and> (\<exists>a. 777728 \<le> a \<and> a \<le> int (length (ofp s))
                                \<and> slot_entry (ofp s) (360 * i + j)
                                    = (a, file_segments recs, file_vertices recs))
                    else slot_entry (ofp s) (360 * i + j) = (0, 0, 0))"
    using cell slot_entry_head [of "ofp s"] by blast
  have 5: "\<forall>i < 180. \<forall>j < 360. files s (int j, int i) = None"
    if f: "build_coast rnd head_buf fs sources = Finished s"
  proof -
    have "pass2 head_buf st = Inr s"
      using f p1 by (auto simp: build_coast_def split: sum.splits prod.splits)
    then have "\<forall>(i, j) \<in> set cell_order. files s (j, i) = None"
      using encode_cells_consumed [of head_buf cell_order _ s] by (simp add: pass2_def)
    then show ?thesis
      using cell_order_mem by fastforce
  qed
  show ?thesis
    using 1 head_offsets_cell_order 3 p1 4 5 by (intro conjI exI [of _ st] impI) 
qed


text \<open>A run on a single staging file, for the example below.\<close>

lemma encode_cells_empty:
  "\<forall>c. files s c = None \<Longrightarrow>
     \<exists>s'. encode_cells head_buf cs s = Inr s' \<and> ofp s' = ofp s \<and> packed s' = packed s"
proof (induction cs arbitrary: s)
  case Nil
  show ?case by simp
next
  case (Cons c cs)
  obtain i j where c: "c = (i, j)" by (cases c)
  have "encode_cell head_buf i j s = Inr (s\<lparr>num_segments := 0, num_vertices := 0\<rparr>)"
    using Cons.prems by (simp add: encode_cell_def)
  then show ?case
    using Cons.IH [of "s\<lparr>num_segments := 0, num_vertices := 0\<rparr>"] Cons.prems by (simp add: c)
qed

lemma encode_cells_single:
  assumes "files s = [(j0, i0) \<mapsto> recs]" and "(i0, j0) \<in> set cs"
    and "encode_cell head_buf i0 j0 s = Inr s1"
  shows "\<exists>s'. encode_cells head_buf cs s = Inr s' \<and> ofp s' = ofp s1 \<and> packed s' = packed s1"
  using assms
proof (induction cs arbitrary: s)
  case Nil
  then show ?case by simp
next
  case (Cons c cs)
  obtain i j where c: "c = (i, j)" by (cases c)
  show ?case
  proof (cases "(i, j) = (i0, j0)")
    case True
    from Cons.prems(1,3) obtain s2 where
      r: "encode_records i0 j0 recs (s\<lparr>num_segments := 0, num_vertices := 0\<rparr>) = Inr s2"
      and f: "files s1 = (files s2)((j0, i0) := None)"
      by (auto simp: encode_cell_def Let_def split: sum.splits)
    have "\<forall>c. files s1 c = None"
      using encode_records_Inr [OF r] Cons.prems(1) by (simp add: f)
    from encode_cells_empty [OF this, of head_buf cs] show ?thesis
      using Cons.prems(3) True by (simp add: c)
  next
    case False
    let ?s0 = "s\<lparr>num_segments := 0, num_vertices := 0\<rparr>"
    have n: "files s (j, i) = None" using Cons.prems(1) False by auto
    then have e: "encode_cell head_buf i j s = Inr ?s0"
      by (simp add: encode_cell_def)
    have "encode_cell head_buf i0 j0 ?s0 = encode_cell head_buf i0 j0 s"
      by (simp add: encode_cell_def)
    then show ?thesis
      using Cons.IH [of ?s0] Cons.prems False e by (auto simp: c)
  qed
qed

lemma head_entry_patched:
  assumes hb: "length head_buf = 12" and r: "in_range (j, i)"
    and l: "777728 \<le> length file"
    and a: "0 \<le> a" "a < 2 ^ 32" and n: "0 \<le> n" "n < 2 ^ 32" and v: "0 \<le> v" "v < 2 ^ 32"
  shows "head_entry (fwrite_at file (head_offset i j) (pack_head head_buf a n v)) i j = (a, n, v)"
proof -
  let ?P = "pack_head head_buf a n v"
  have lp: "length ?P = 12" by (rule pack_head_bits(2) [OF hb])
  have fit: "head_offset i j + length ?P \<le> length file"
    using head_offset_in_range(2) [OF r] l by (simp add: lp)
  have "take 12 (drop (head_offset i j) (fwrite_at file (head_offset i j) ?P)) = ?P"
    using fwrite_at_inside(2) [OF fit] by (simp add: lp)
  then show ?thesis
    using a n v by (simp add: head_entry_def bit_unpack_head [OF hb] Let_def)
qed

text \<open>
  C8, at a finished run: one shape of two points in the cell of longitude index 20 and
  latitude index 10 (the sums and products of its coordinates are doubles, and \<open>rnd\<close> is
  \<open>id\<close>). The counter ends at 2; entry number 360 x 10 + 20 holds the address 777728 (the
  first byte after the header area), one segment and two vertices, and entry number
  360 x 20 + 10, of the cell with the two indices exchanged, is zero.
\<close>

theorem header_density_witness:
  "length (replicate 12 (0 :: byte)) = 12
   \<and> (\<exists>s. build_coast id (replicate 12 0) Map.empty
              [[\<lparr>nVertices = 2, nParts = 1, panPartStart = [0],
                 padfX = [- 159.5, - 159.25], padfY = [- 79.5, - 79.25]\<rparr>]] = Finished s
          \<and> packed s = 2 \<and> length (ofp s) = 777742
          \<and> slot_entry (ofp s) (360 * 10 + 20) = (777728, 1, 2)
          \<and> slot_entry (ofp s) (360 * 20 + 10) = (0, 0, 0))"
proof -
  let ?hb = "replicate 12 (0 :: byte)"
  let ?shape = "\<lparr>nVertices = 2, nParts = 1, panPartStart = [0],
                 padfX = [- 159.5, - 159.25], padfY = [- 79.5, - 79.25]\<rparr>"
  let ?r = "[(2050000, 1050000), (2075000, 1075000)] :: vertex list"
  let ?st = "[(20, 10) \<mapsto> [?r]] :: staging"
  let ?b = "[16, 67, 51, 202, 236, 242, 184, 62, 143, 160, 16, 5, 144, 0] :: byte list"
  have hb: "length ?hb = 12" by simp
  have u: "[0..<2] = [0, 1]" by (simp add: upt_rec)
  have p1: "pass1 id Map.empty [[?shape]] = Inr ?st"
    by (simp add: pass1_def read_source_def read_shape_def u vertex_step_def normalize_def
        NINT_def cast_int32_def write_record_def open_cell_def ingest_init_def remove_cells_def
        Let_def fun_eq_iff)
  let ?s0 = "\<lparr>files = ?st, ofp = init_header ?hb, num_segments = 0, num_vertices = 0,
        packed = 0\<rparr>"
  have e: "encode_segment 10 20 ?r = Inr ?b"
    by code_simp
  let ?s1 = "\<lparr>files = ?st((20, 10) := None),
              ofp = fwrite_at (init_header ?hb @ ?b) (head_offset 10 20)
                      (pack_head ?hb 777728 1 2),
              num_segments = 1, num_vertices = 2, packed = 2\<rparr>"
  have c: "encode_cell ?hb 10 20 ?s0 = Inr ?s1"
    by (simp add: encode_cell_def e Let_def length_init_header [OF hb])
  have m: "(10, 20) \<in> set cell_order"
    using cell_order_mem [of 10 20] by simp
  obtain s where s: "encode_cells ?hb cell_order ?s0 = Inr s" and o: "ofp s = ofp ?s1"
    and p: "packed s = packed ?s1"
    using encode_cells_single [of ?s0 20 10 "[?r]" cell_order ?hb ?s1, OF _ m c] by auto
  have fin: "build_coast id ?hb Map.empty [[?shape]] = Finished s"
    unfolding build_coast_def p1 using s by (simp add: pass2_def)
  then have f: "final_state (build_coast id ?hb Map.empty [[?shape]]) = Some s"
    by simp
  have pk: "packed s < 2 ^ 31" using p by simp
  have r: "in_range (20, 10)" by (simp add: in_range_def)
  have fit: "head_offset 10 20 + length (pack_head ?hb 777728 1 2) \<le> length (init_header ?hb @ ?b)"
    using head_offset_in_range(2) [OF r]
    by (simp add: length_init_header [OF hb] pack_head_bits(2) [OF hb])
  have len: "length (ofp s) = 777742"
    unfolding o using fwrite_at_inside(1) [OF fit] by (simp add: length_init_header [OF hb])
  then have ln: "length (ofp s) < 2 ^ 31" by simp
  have "head_entry (ofp s) (int 10) (int 20) = (777728, 1, 2)"
    unfolding o using head_entry_patched [OF hb r, of "init_header ?hb @ ?b" 777728 1 2]
    by (simp add: length_init_header [OF hb])
  then have a: "slot_entry (ofp s) (360 * 10 + 20) = (777728, 1, 2)"
    unfolding slot_entry_head .
  note D = header_density [OF hb f pk ln]
  from D obtain st where st: "pass1 id Map.empty [[?shape]] = Inr st"
    and t: "\<forall>i < 180. \<forall>j < 360.
               (case st (int j, int i) of
                  None \<Rightarrow> slot_entry (ofp s) (360 * i + j) = (0, 0, 0)
                | Some recs \<Rightarrow>
                    if files s (int j, int i) = None
                    then 0 < file_segments recs
                         \<and> (\<exists>a. 777728 \<le> a \<and> a \<le> int (length (ofp s))
                                \<and> slot_entry (ofp s) (360 * i + j)
                                    = (a, file_segments recs, file_vertices recs))
                    else slot_entry (ofp s) (360 * i + j) = (0, 0, 0))"
    by blast
  have "st = ?st" using st p1 by simp
  then have "st (int 10, int 20) = None" by simp
  then have z: "slot_entry (ofp s) (360 * 20 + 10) = (0, 0, 0)"
    using t [rule_format, of 20 10] by simp
  show ?thesis
    using fin p len a z hb by auto
qed


end
